theory Spec2Isabelle
  imports Complex_Main
begin

chapter \<open>Definitions\<close>

section \<open>Numeric values\<close>

text \<open>
  Distances are floating-point numbers that may be \<^verbatim>\<open>np.inf\<close>. They are modelled as
  reals extended by one infinite value. A sum of squares or of distances whose exact value
  is above the largest float64 overflows to infinity (\<open>to_float64\<close>); the rounding of the
  distances and NaN are outside the model.
\<close>

datatype xreal = Fin real | PInf

instantiation xreal :: linorder
begin

fun less_eq_xreal :: "xreal \<Rightarrow> xreal \<Rightarrow> bool" where
  "less_eq_xreal x PInf = True"
| "less_eq_xreal PInf (Fin b) = False"
| "less_eq_xreal (Fin a) (Fin b) = (a \<le> b)"

definition less_xreal :: "xreal \<Rightarrow> xreal \<Rightarrow> bool" where
  "less_xreal x y = (x \<le> y \<and> \<not> y \<le> x)"

instance
proof
  fix x y z :: xreal
  show "(x < y) = (x \<le> y \<and> \<not> y \<le> x)" by (simp add: less_xreal_def)
  show "x \<le> x" by (cases x) simp_all
  show "x \<le> y \<Longrightarrow> y \<le> z \<Longrightarrow> x \<le> z" by (cases x; cases y; cases z) simp_all
  show "x \<le> y \<Longrightarrow> y \<le> x \<Longrightarrow> x = y" by (cases x; cases y) simp_all
  show "x \<le> y \<or> y \<le> x" by (cases x; cases y) auto
qed

end

definition float64_max :: real where
  "float64_max = (2 ^ 53 - 1) * 2 ^ 971"

definition to_float64 :: "real \<Rightarrow> xreal" where
  "to_float64 x = (if x \<le> float64_max then Fin x else PInf)"

text \<open>
  The product \<^verbatim>\<open>warping_window * max(sz1, sz2)\<close> is a float64 product, of which the ceiling
  is taken: there the rounding decides the result, and it is modelled. \<open>float64_round x\<close>
  is the float64 nearest to \<open>x\<close>, ties to the even significand: 53 significant bits, the
  exponent not below that of the subnormal numbers. The product of a float64 and an
  integer below \<open>2 ^ 53\<close> is the rounding of the exact product; it does not overflow for
  a window in \<open>[0, 1]\<close>.
\<close>

definition pow2 :: "int \<Rightarrow> real" where
  "pow2 e = (if 0 \<le> e then 2 ^ nat e else 1 / 2 ^ nat (- e))"

definition round_ties_even :: "real \<Rightarrow> int" where
  "round_ties_even r =
     (let f = \<lfloor>r\<rfloor>
      in if r - of_int f < 1 / 2 then f
         else if 1 / 2 < r - of_int f then f + 1
         else if even f then f else f + 1)"

definition float64_round :: "real \<Rightarrow> real" where
  "float64_round x =
     (if x = 0 then 0
      else
        let e = max \<lfloor>log 2 \<bar>x\<bar>\<rfloor> (- 1022);
            ulp = pow2 (e - 52)
        in of_int (round_ties_even (x / ulp)) * ulp)"

section \<open>Sakoe-Chiba mask (utils.py)\<close>

text \<open>
  \<^verbatim>\<open>row[lower:upper] = v\<close>: a slice assignment of a scalar; the slice is clipped to the
  row, as numpy does.
\<close>

definition assign_slice :: "nat \<Rightarrow> nat \<Rightarrow> 'a \<Rightarrow> 'a list \<Rightarrow> 'a list" where
  "assign_slice lower upper v xs =
     map (\<lambda>(j, x). if lower \<le> j \<and> j < upper then v else x) (zip [0..<length xs] xs)"

text \<open>\<^verbatim>\<open>mask[lower:upper, i] = v\<close>: the same along column \<open>i\<close>.\<close>

definition assign_column_slice :: "nat \<Rightarrow> nat \<Rightarrow> nat \<Rightarrow> 'a \<Rightarrow> 'a list list \<Rightarrow> 'a list list" where
  "assign_column_slice lower upper i v m =
     map (\<lambda>(r, row). if lower \<le> r \<and> r < upper then row[i := v] else row) (zip [0..<length m] m)"

text \<open>
  \<^verbatim>\<open>sakoe_chiba_mask(sz1, sz2, warping_window)\<close>: the mask starts as
  \<^verbatim>\<open>np.full((sz1, sz2), np.inf)\<close>; the loop runs over the rows when \<open>sz1 \<le> sz2\<close> and
  over the columns otherwise (\<^verbatim>\<open>prange\<close> is a plain range here). \<open>warping_window\<close> is the
  value of a float64.
\<close>

definition sakoe_chiba_mask :: "nat \<Rightarrow> nat \<Rightarrow> real \<Rightarrow> xreal list list" where
  "sakoe_chiba_mask sz1 sz2 warping_window =
     (let w = max \<lceil>float64_round (warping_window * real (max sz1 sz2))\<rceil> (\<bar>int sz1 - int sz2\<bar> + 1);
          mask = replicate sz1 (replicate sz2 PInf)
      in if sz1 \<le> sz2 then
           foldl (\<lambda>mask i.
                    let lower = nat (max 0 (int i - w));
                        upper = nat (min (int sz2) (int i + w) + 1)
                    in mask[i := assign_slice lower upper (Fin 0) (mask ! i)])
                 mask [0..<sz1]
         else
           foldl (\<lambda>mask i.
                    let lower = nat (max 0 (int i - w));
                        upper = nat (min (int sz1) (int i + w) + 1)
                    in assign_column_slice lower upper i (Fin 0) mask)
                 mask [0..<sz2])"

text \<open>
  A warping path moves down, right or diagonally by one cell; a zero-cost path stays on
  cells of the mask that hold 0.
\<close>

fun step_ok :: "nat \<times> nat \<Rightarrow> nat \<times> nat \<Rightarrow> bool" where
  "step_ok (i, j) (i', j') =
     ((i' = i + 1 \<and> j' = j) \<or> (i' = i \<and> j' = j + 1) \<or> (i' = i + 1 \<and> j' = j + 1))"

fun monotone_path :: "(nat \<times> nat) list \<Rightarrow> bool" where
  "monotone_path [] = False"
| "monotone_path [c] = True"
| "monotone_path (c # d # cs) = (step_ok c d \<and> monotone_path (d # cs))"

definition zero_cost_path :: "xreal list list \<Rightarrow> (nat \<times> nat) list \<Rightarrow> bool" where
  "zero_cost_path msk p =
     (monotone_path p \<and>
      list_all (\<lambda>(i, j). i < length msk \<and> j < length (msk ! i) \<and> msk ! i ! j = Fin 0) p)"

text \<open>The two loops of \<open>sakoe_chiba_mask\<close> after \<open>k\<close> iterations.\<close>

definition row_loop :: "nat \<Rightarrow> int \<Rightarrow> xreal list list \<Rightarrow> nat \<Rightarrow> xreal list list" where
  "row_loop sz2 w msk k =
     foldl (\<lambda>mask i.
              let lower = nat (max 0 (int i - w));
                  upper = nat (min (int sz2) (int i + w) + 1)
              in mask[i := assign_slice lower upper (Fin 0) (mask ! i)])
           msk [0..<k]"

definition col_loop :: "nat \<Rightarrow> int \<Rightarrow> xreal list list \<Rightarrow> nat \<Rightarrow> xreal list list" where
  "col_loop sz1 w msk k =
     foldl (\<lambda>mask i.
              let lower = nat (max 0 (int i - w));
                  upper = nat (min (int sz1) (int i + w) + 1)
              in assign_column_slice lower upper i (Fin 0) mask)
           msk [0..<k]"

text \<open>The path along the diagonal, then straight along the last row or column.\<close>

definition band_path :: "nat \<Rightarrow> nat \<Rightarrow> (nat \<times> nat) list" where
  "band_path sz1 sz2 = map (\<lambda>k. (min k (sz1 - 1), min k (sz2 - 1))) [0..<max sz1 sz2]"

section \<open>Sequences, errors and arithmetic with infinity\<close>

text \<open>
  A sequence is a numpy array of shape \<open>(N, d)\<close>: a list of \<open>N\<close> points of \<open>d\<close> reals.
  What the Python raises is a value of \<open>error\<close>; a function that can raise returns
  \<open>error + 'a\<close>, \<open>Inl\<close> being the exception. A read outside an array in the compiled
  functions, which numba does not check, is an \<open>IndexError\<close> as well.
\<close>

type_synonym point = "real list"
type_synonym seq = "point list"

datatype error = IndexError | ZeroDivisionError | ValueError

text \<open>
  The sum of two distances or sums of squares, none of them negative: it is infinite when
  one of them is, and when it overflows.
\<close>

fun xadd :: "xreal \<Rightarrow> xreal \<Rightarrow> xreal" where
  "xadd (Fin a) (Fin b) = to_float64 (a + b)"
| "xadd x y = PInf"

fun xdiv :: "xreal \<Rightarrow> real \<Rightarrow> xreal" where
  "xdiv (Fin a) c = Fin (a / c)"
| "xdiv PInf c = PInf"

fun xsqrt :: "xreal \<Rightarrow> xreal" where
  "xsqrt (Fin a) = Fin (sqrt a)"
| "xsqrt PInf = PInf"

text \<open>Python indexing \<^verbatim>\<open>xs[i]\<close>: a negative index counts from the end.\<close>

definition py_index :: "'a list \<Rightarrow> int \<Rightarrow> 'a option" where
  "py_index xs i =
     (if 0 \<le> i \<and> i < int (length xs) then Some (xs ! nat i)
      else if i < 0 \<and> - int (length xs) \<le> i then Some (xs ! nat (int (length xs) + i))
      else None)"

text \<open>A \<^verbatim>\<open>for\<close> loop over a list whose body may raise.\<close>

fun fold_err :: "('a \<Rightarrow> 's \<Rightarrow> error + 's) \<Rightarrow> 'a list \<Rightarrow> 's \<Rightarrow> error + 's" where
  "fold_err f [] s = Inr s"
| "fold_err f (x # xs) s = (case f x s of Inl e \<Rightarrow> Inl e | Inr s' \<Rightarrow> fold_err f xs s')"

text \<open>
  \<^verbatim>\<open>np.sum((a - b) ** 2)\<close> for two points, and \<^verbatim>\<open>np.sum(r ** 2)\<close> for an array: infinite
  when the squares or their sum overflow.
\<close>

definition sq_dist :: "point \<Rightarrow> point \<Rightarrow> xreal" where
  "sq_dist a b = to_float64 (sum_list (map2 (\<lambda>x y. (x - y)\<^sup>2) a b))"

definition sum_sq :: "seq \<Rightarrow> xreal" where
  "sum_sq r = to_float64 (sum_list (map (\<lambda>row. sum_list (map (\<lambda>x. x\<^sup>2) row)) r))"

section \<open>Warped distance kernel\<close>

text \<open>
  Modelled from the spec: \<^verbatim>\<open>njit_dtw\<close> is imported from the \<^verbatim>\<open>tslearn\<close> library and is not
  part of the sources. The spec gives its contract (section 4.2): a non-negative
  alignment distance between two sequences under a cost mask whose permitted cells are 0
  and whose forbidden cells are infinite, added into the alignment cost; the path starts
  at \<open>(0, 0)\<close>, ends at the last cell and moves right, down or diagonally. This is the
  usual recurrence over squared Euclidean point distances, with the root taken at the
  end. A sequence without points has no last cell.
\<close>

definition local_cost :: "seq \<Rightarrow> seq \<Rightarrow> xreal list list \<Rightarrow> nat \<Rightarrow> nat \<Rightarrow> xreal" where
  "local_cost s1 s2 msk i j = xadd (sq_dist (s1 ! i) (s2 ! j)) (msk ! i ! j)"

fun accumulated_cost :: "seq \<Rightarrow> seq \<Rightarrow> xreal list list \<Rightarrow> nat \<Rightarrow> nat \<Rightarrow> xreal" where
  "accumulated_cost s1 s2 msk 0 0 = local_cost s1 s2 msk 0 0"
| "accumulated_cost s1 s2 msk 0 (Suc j) =
     xadd (local_cost s1 s2 msk 0 (Suc j)) (accumulated_cost s1 s2 msk 0 j)"
| "accumulated_cost s1 s2 msk (Suc i) 0 =
     xadd (local_cost s1 s2 msk (Suc i) 0) (accumulated_cost s1 s2 msk i 0)"
| "accumulated_cost s1 s2 msk (Suc i) (Suc j) =
     xadd (local_cost s1 s2 msk (Suc i) (Suc j))
       (min (accumulated_cost s1 s2 msk i (Suc j))
         (min (accumulated_cost s1 s2 msk (Suc i) j) (accumulated_cost s1 s2 msk i j)))"

definition njit_dtw :: "seq \<Rightarrow> seq \<Rightarrow> xreal list list \<Rightarrow> error + xreal" where
  "njit_dtw s1 s2 msk =
     (if s1 = [] \<or> s2 = [] then Inl IndexError
      else Inr (xsqrt (accumulated_cost s1 s2 msk (length s1 - 1) (length s2 - 1))))"

section \<open>Lower bounds and average distance (segmentation.py)\<close>

text \<open>\<^verbatim>\<open>template_info_tuple\<close>; \<open>length\<close>, \<open>min\<close> and \<open>max\<close> carry a suffix.\<close>

record template_info =
  length_info :: nat
  min_info :: point
  max_info :: point
  first_value :: point
  last_value :: point

text \<open>
  The three functions share their loops: the inner loop sums a value over the templates
  of a group and divides by the size of the group (a division by zero when the group is
  empty); the outer loop keeps the least group value and its 1-based label, starting
  from \<^verbatim>\<open>np.inf\<close> and label 1.
\<close>

definition group_average :: "('t \<Rightarrow> error + xreal) \<Rightarrow> 't list \<Rightarrow> error + xreal" where
  "group_average f t =
     (case fold_err (\<lambda>temp val. case f temp of Inl e \<Rightarrow> Inl e | Inr d \<Rightarrow> Inr (xadd val d)) t (Fin 0) of
        Inl e \<Rightarrow> Inl e
      | Inr val \<Rightarrow> if length t = 0 then Inl ZeroDivisionError else Inr (xdiv val (real (length t))))"

fun groups_loop ::
  "(nat \<Rightarrow> 't \<Rightarrow> error + xreal) \<Rightarrow> nat \<Rightarrow> 't list \<Rightarrow> xreal \<times> nat \<Rightarrow> error + (xreal \<times> nat)" where
  "groups_loop f i [] best = Inr best"
| "groups_loop f i (t # ts) best =
     (case f i t of
        Inl e \<Rightarrow> Inl e
      | Inr val \<Rightarrow> groups_loop f (i + 1) ts (if val < fst best then (val, i + 1) else best))"

definition min_over_groups :: "(nat \<Rightarrow> 't \<Rightarrow> error + xreal) \<Rightarrow> 't list \<Rightarrow> error + (xreal \<times> nat)" where
  "min_over_groups f ts = groups_loop f 0 ts (PInf, 1)"

text \<open>\<^verbatim>\<open>average_lb_distance_to_templates1\<close>: first and last values only.\<close>

definition lb1_term :: "seq \<Rightarrow> template_info \<Rightarrow> error + xreal" where
  "lb1_term sequence temp =
     (if sequence = [] then Inl IndexError
      else Inr (xdiv (xsqrt (xadd (sq_dist (hd sequence) (first_value temp))
                                  (sq_dist (last sequence) (last_value temp))))
                     (real (length sequence + length_info temp))))"

definition average_lb_distance_to_templates1 :: "seq \<Rightarrow> template_info list list \<Rightarrow> error + xreal" where
  "average_lb_distance_to_templates1 sequence templates_info =
     (case min_over_groups (\<lambda>i t. group_average (lb1_term sequence) t) templates_info of
        Inl e \<Rightarrow> Inl e
      | Inr (val_min, label) \<Rightarrow> Inr val_min)"

text \<open>
  \<^verbatim>\<open>average_lb_distance_to_templates2\<close>. \<open>envelope_excess\<close> is
  \<^verbatim>\<open>r = q * (q >= 0.0); r[0, :] = 0.0; r[-1, :] = 0.0\<close>.
\<close>

definition column :: "seq \<Rightarrow> nat \<Rightarrow> real list" where
  "column s j = map (\<lambda>row. row ! j) s"

definition envelope_excess :: "seq \<Rightarrow> seq" where
  "envelope_excess q =
     (let r = map (map (\<lambda>x. x * (if x \<ge> 0 then 1 else 0))) q;
          r = r[0 := map (\<lambda>x. 0) (r ! 0)]
      in r[length r - 1 := map (\<lambda>x. 0) (r ! (length r - 1))])"

definition lb2_term :: "seq \<Rightarrow> point \<Rightarrow> point \<Rightarrow> seq \<Rightarrow> template_info \<Rightarrow> error + xreal" where
  "lb2_term sequence min_seq max_seq temp info =
     (if sequence = [] \<or> temp = [] then Inl IndexError
      else
        let len_seq = length sequence;
            dev_first_last = xadd (sq_dist (hd sequence) (first_value info))
                                  (sq_dist (last sequence) (last_value info));
            r1 = envelope_excess (map (\<lambda>row. map2 (-) row (max_info info)) sequence);
            r2 = envelope_excess (map (\<lambda>row. map2 (-) (min_info info) row) sequence);
            val1 = xdiv (xsqrt (xadd (xadd (sum_sq r1) (sum_sq r2)) dev_first_last))
                        (real (len_seq + length_info info));
            r3 = envelope_excess (map (\<lambda>row. map2 (-) row max_seq) temp);
            r4 = envelope_excess (map (\<lambda>row. map2 (-) min_seq row) temp);
            val2 = xdiv (xsqrt (xadd (xadd (sum_sq r3) (sum_sq r4)) dev_first_last))
                        (real (len_seq + length_info info))
        in Inr (max val1 val2))"

definition average_lb_distance_to_templates2 ::
  "seq \<Rightarrow> seq list list \<Rightarrow> template_info list list \<Rightarrow> error + xreal" where
  "average_lb_distance_to_templates2 sequence templates templates_info =
     (if sequence = [] then Inl ValueError
      else
        let dims = [0..<length (hd sequence)];
            min_seq = map (\<lambda>j. fold min (tl (column sequence j)) (hd (column sequence j))) dims;
            max_seq = map (\<lambda>j. fold max (tl (column sequence j)) (hd (column sequence j))) dims
        in case min_over_groups
                  (\<lambda>i t. group_average
                            (\<lambda>(j, temp).
                               if i < length templates_info \<and> j < length (templates_info ! i)
                               then lb2_term sequence min_seq max_seq temp (templates_info ! i ! j)
                               else Inl IndexError)
                            (zip [0..<length t] t))
                  templates of
             Inl e \<Rightarrow> Inl e
           | Inr (val_min, label) \<Rightarrow> Inr val_min)"

text \<open>\<^verbatim>\<open>average_distance_to_templates\<close>; \<open>None\<close> is no warping window.\<close>

definition distance_term :: "seq \<Rightarrow> real option \<Rightarrow> seq \<Rightarrow> error + xreal" where
  "distance_term sequence warping_window temp =
     (let len_seq = length sequence;
          len_temp = length temp;
          msk = (case warping_window of
                   None \<Rightarrow> replicate len_seq (replicate len_temp (Fin 0))
                 | Some w \<Rightarrow> sakoe_chiba_mask len_seq len_temp w)
      in case njit_dtw sequence temp msk of
           Inl e \<Rightarrow> Inl e
         | Inr d \<Rightarrow> Inr (xdiv d (real (len_seq + len_temp))))"

definition average_distance_to_templates ::
  "seq \<Rightarrow> seq list list \<Rightarrow> real option \<Rightarrow> error + (xreal \<times> nat)" where
  "average_distance_to_templates sequence templates warping_window =
     min_over_groups (\<lambda>i t. group_average (distance_term sequence warping_window) t) templates"

section \<open>Subsequence search (segmentation.py)\<close>

text \<open>
  Rolling mean and standard deviation, per dimension: \<^verbatim>\<open>np.cumsum(x) / den\<close> and
  \<^verbatim>\<open>np.sqrt(1e-16 + np.cumsum((x - mean) ** 2) / den)\<close>.
\<close>

definition cumsum :: "real list \<Rightarrow> real list" where
  "cumsum xs = map (\<lambda>i. sum_list (take (Suc i) xs)) [0..<length xs]"

definition rolling_mean :: "seq \<Rightarrow> seq" where
  "rolling_mean s =
     map (\<lambda>i. map (\<lambda>j. cumsum (column s j) ! i / real (i + 1)) [0..<length (hd s)]) [0..<length s]"

definition rolling_stdev :: "seq \<Rightarrow> seq \<Rightarrow> seq" where
  "rolling_stdev s sequence_mean =
     map (\<lambda>i. map (\<lambda>j. sqrt (1 / 10 ^ 16 +
                   cumsum (map2 (\<lambda>x mu. (x - mu)\<^sup>2) (column s j) (column sequence_mean j)) ! i
                     / real (i + 1)))
              [0..<length (hd s)])
       [0..<length s]"

text \<open>
  \<^verbatim>\<open>(sequence[:m, :] - sequence_mean[m - 1, :]) / sequence_stdev[m - 1, :]\<close>, or
  \<^verbatim>\<open>sequence[:m, :]\<close> without normalisation.
\<close>

definition normalized_prefix :: "bool \<Rightarrow> seq \<Rightarrow> seq \<Rightarrow> seq \<Rightarrow> nat \<Rightarrow> error + seq" where
  "normalized_prefix do_normalize s sequence_mean sequence_stdev m =
     (if do_normalize then
        (case (py_index sequence_mean (int m - 1), py_index sequence_stdev (int m - 1)) of
           (Some mu, Some sd) \<Rightarrow>
             Inr (map (\<lambda>row. map (\<lambda>(x, mu_j, sd_j). (x - mu_j) / sd_j) (zip row (zip mu sd))) (take m s))
         | _ \<Rightarrow> Inl IndexError)
      else Inr (take m s))"

text \<open>
  \<^verbatim>\<open>int(np.round(0.5 * s))\<close> for a natural number \<open>s\<close>: numpy rounds a half to the even
  neighbour. \<open>arange\<close> is \<^verbatim>\<open>np.arange(start, stop, step)\<close> for a positive step.
\<close>

definition round_half_even :: "nat \<Rightarrow> nat" where
  "round_half_even s =
     (if even s then s div 2 else if even (s div 2) then s div 2 else s div 2 + 1)"

definition arange :: "nat \<Rightarrow> nat \<Rightarrow> nat \<Rightarrow> nat list" where
  "arange start stop step = map (\<lambda>k. start + k * step) [0..<(stop - start + step - 1) div step]"

text \<open>
  The body of the loop over the candidate lengths, on the running best
  \<open>(len_best, d_min, label_best)\<close>; a \<^verbatim>\<open>continue\<close> leaves it unchanged.
\<close>

definition search_step ::
  "seq \<Rightarrow> seq \<Rightarrow> seq \<Rightarrow> seq list list \<Rightarrow> template_info list list \<Rightarrow> bool \<Rightarrow> real option \<Rightarrow> bool \<Rightarrow>
   nat \<Rightarrow> nat \<times> xreal \<times> nat \<Rightarrow> error + (nat \<times> xreal \<times> nat)" where
  "search_step s sequence_mean sequence_stdev templates templates_info do_normalize warping_window
     use_lower_bounds m best =
     (case best of (len_best, d_min, label_best) \<Rightarrow>
      case normalized_prefix do_normalize s sequence_mean sequence_stdev m of
        Inl e \<Rightarrow> Inl e
      | Inr sequence_norm \<Rightarrow>
          let evaluate =
                (case average_distance_to_templates sequence_norm templates warping_window of
                   Inl e \<Rightarrow> Inl e
                 | Inr (d, label) \<Rightarrow> if d < d_min then Inr (m, d, label) else Inr best)
          in if use_lower_bounds then
               (case average_lb_distance_to_templates1 sequence_norm templates_info of
                  Inl e \<Rightarrow> Inl e
                | Inr d_lb1 \<Rightarrow>
                    if d_lb1 > d_min then Inr best
                    else
                      (case average_lb_distance_to_templates2 sequence_norm templates templates_info of
                         Inl e \<Rightarrow> Inl e
                       | Inr d_lb2 \<Rightarrow> if d_lb2 > d_min then Inr best else evaluate))
             else evaluate)"

text \<open>
  \<^verbatim>\<open>search_subsequence\<close>. \<^verbatim>\<open>np.random.permutation\<close> reads and advances the state of
  numpy's global generator: it is the parameter \<open>permutation\<close>, on an explicit generator
  state \<open>g\<close> that the function returns updated.
\<close>

definition search_subsequence ::
  "('g \<Rightarrow> nat list \<Rightarrow> nat list \<times> 'g) \<Rightarrow> seq \<Rightarrow> seq list list \<Rightarrow> template_info list list \<Rightarrow>
   nat \<Rightarrow> nat \<Rightarrow> bool \<Rightarrow> real option \<Rightarrow> bool \<Rightarrow> nat \<Rightarrow> 'g \<Rightarrow>
   error + ((nat \<times> xreal \<times> nat) \<times> 'g)" where
  "search_subsequence permutation sequence0 templates templates_info min_length0 max_length0
     do_normalize warping_window use_lower_bounds length_step g =
     (let s = (if length sequence0 > max_length0 then take max_length0 sequence0 else sequence0);
          max_length = length s;
          min_length = (if min_length0 \<ge> max_length then max 1 (max_length - 1) else min_length0);
          sequence_mean = (if do_normalize then rolling_mean s else s);
          sequence_stdev = (if do_normalize then rolling_stdev s sequence_mean else s);
          mid_length = round_half_even (min_length + max_length)
      in if length_step = 0 then Inl ValueError
         else
           (case permutation g (arange min_length (max_length + 1) length_step) of
              (v, g') \<Rightarrow>
                (case fold_err
                        (search_step s sequence_mean sequence_stdev templates templates_info do_normalize
                           warping_window use_lower_bounds)
                        (mid_length # filter (\<lambda>x. x \<noteq> mid_length) v)
                        (mid_length, PInf, 0) of
                   Inl e \<Rightarrow> Inl e
                 | Inr best \<Rightarrow> Inr (best, g'))))"

section \<open>Segmentation driver (segmentation.py)\<close>

text \<open>
  \<^verbatim>\<open>info_best = [offset, sequence_length, avg_distance, label]\<close>, and the variables of the
  inner \<^verbatim>\<open>while\<close> loop.
\<close>

record candidate =
  cand_offset :: nat
  cand_length :: nat
  cand_distance :: xreal
  cand_label :: nat

record 'g scan_state =
  offset :: nat
  info_best :: candidate
  match :: bool
  rng :: 'g

datatype 'g scan_outcome = Break "'g scan_state" | Continue "'g scan_state"

text \<open>
  The end of the loop body: the offset advances, and with a tracked match the scan
  breaks on either of its two conditions.
\<close>

definition advance_offset :: "nat \<Rightarrow> bool \<Rightarrow> 'g scan_state \<Rightarrow> 'g scan_outcome" where
  "advance_offset offset_step approx st =
     (let st' = st\<lparr>offset := offset st +
                   (if match st then offset_step
                    else if approx then 5 * offset_step else offset_step)\<rparr>
      in if match st' \<and>
            (int (offset st') - int (cand_offset (info_best st')) > 10 \<or>
             int (offset st') - int (cand_offset (info_best st')) \<ge> int (cand_length (info_best st')) - 1)
         then Break st' else Continue st')"

text \<open>The loop body, from the threshold test on, for the result \<open>found\<close> of the search.\<close>

definition scan_body ::
  "xreal list \<Rightarrow> nat \<Rightarrow> bool \<Rightarrow> 'g scan_state \<Rightarrow> nat \<times> xreal \<times> nat \<Rightarrow> error + 'g scan_outcome" where
  "scan_body distance_thresholds offset_step approx st found =
     (case found of (m, d_avg, label) \<Rightarrow>
      case py_index distance_thresholds (int label - 1) of
        None \<Rightarrow> Inl IndexError
      | Some threshold \<Rightarrow>
          if d_avg \<le> threshold then
            if match st then
              if label = cand_label (info_best st) then
                if d_avg < cand_distance (info_best st) then
                  Inr (advance_offset offset_step approx
                         (st\<lparr>info_best := \<lparr>cand_offset = offset st, cand_length = m,
                                             cand_distance = d_avg, cand_label = label\<rparr>\<rparr>))
                else Inr (advance_offset offset_step approx st)
              else Inr (Break st)
            else
              Inr (advance_offset offset_step approx
                     (st\<lparr>match := True,
                         info_best := \<lparr>cand_offset = offset st, cand_length = m,
                                        cand_distance = d_avg, cand_label = label\<rparr>\<rparr>))
          else Inr (advance_offset offset_step approx st))"

text \<open>
  The inner and the outer \<^verbatim>\<open>while\<close> loop. Neither needs to end (an offset step of 0
  never advances), so both are partial: \<open>None\<close> is a loop that runs forever.
\<close>

partial_function (option) scan ::
  "('g \<Rightarrow> seq \<Rightarrow> error + ((nat \<times> xreal \<times> nat) \<times> 'g)) \<Rightarrow> xreal list \<Rightarrow> nat \<Rightarrow> nat \<Rightarrow> bool \<Rightarrow>
   seq \<Rightarrow> 'g scan_state \<Rightarrow> (error + 'g scan_state) option" where
  "scan search distance_thresholds min_length offset_step approx data_rem st =
     (if int (length data_rem) - int (offset st) > int min_length then
        (case search (rng st) (drop (offset st) data_rem) of
           Inl e \<Rightarrow> Some (Inl e)
         | Inr (found, g') \<Rightarrow>
             (case scan_body distance_thresholds offset_step approx (st\<lparr>rng := g'\<rparr>) found of
                Inl e \<Rightarrow> Some (Inl e)
              | Inr (Break st') \<Rightarrow> Some (Inr st')
              | Inr (Continue st') \<Rightarrow>
                  scan search distance_thresholds min_length offset_step approx data_rem st'))
      else Some (Inr st))"

partial_function (option) segment_loop ::
  "('g \<Rightarrow> seq \<Rightarrow> error + ((nat \<times> xreal \<times> nat) \<times> 'g)) \<Rightarrow> xreal list \<Rightarrow> nat \<Rightarrow> nat \<Rightarrow> bool \<Rightarrow>
   seq \<Rightarrow> seq list \<Rightarrow> nat list \<Rightarrow> 'g \<Rightarrow> (error + (seq list \<times> nat list \<times> seq \<times> 'g)) option" where
  "segment_loop search distance_thresholds min_length offset_step approx data_rem data_segments labels g =
     (if length data_rem > min_length then
        (case scan search distance_thresholds min_length offset_step approx data_rem
                \<lparr>offset = 0,
                 info_best = \<lparr>cand_offset = 0, cand_length = 0, cand_distance = PInf, cand_label = 0\<rparr>,
                 match = False, rng = g\<rparr> of
           None \<Rightarrow> None
         | Some (Inl e) \<Rightarrow> Some (Inl e)
         | Some (Inr st) \<Rightarrow>
             if match st then
               let off = cand_offset (info_best st);
                   m = cand_length (info_best st);
                   label = cand_label (info_best st);
                   data_segments1 = (if off > 0 then data_segments @ [take off data_rem] else data_segments);
                   labels1 = (if off > 0 then labels @ [0] else labels)
               in segment_loop search distance_thresholds min_length offset_step approx
                    (drop (off + m) data_rem)
                    (data_segments1 @ [take m (drop off data_rem)])
                    (labels1 @ [label])
                    (rng st)
             else Some (Inr (data_segments @ [data_rem], labels @ [0], [], rng st)))
      else Some (Inr (data_segments, labels, data_rem, g)))"

text \<open>The call of \<^verbatim>\<open>search_subsequence\<close> in the driver; the lower bounds are on.\<close>

definition driver_search ::
  "('g \<Rightarrow> nat list \<Rightarrow> nat list \<times> 'g) \<Rightarrow> seq list list \<Rightarrow> template_info list list \<Rightarrow>
   nat \<Rightarrow> nat \<Rightarrow> bool \<Rightarrow> real option \<Rightarrow> nat \<Rightarrow> 'g \<Rightarrow> seq \<Rightarrow>
   error + ((nat \<times> xreal \<times> nat) \<times> 'g)" where
  "driver_search permutation templates_norm templates_info min_length max_length do_normalize
     warping_window length_step g s =
     search_subsequence permutation s templates_norm templates_info min_length max_length
       do_normalize warping_window True length_step g"

definition segment_repeat_sequences ::
  "('g \<Rightarrow> nat list \<Rightarrow> nat list \<times> 'g) \<Rightarrow> seq \<Rightarrow> seq list list \<Rightarrow> template_info list list \<Rightarrow>
   xreal list \<Rightarrow> nat \<times> nat \<times> nat \<Rightarrow> bool \<Rightarrow> real option \<Rightarrow> nat \<Rightarrow> nat \<Rightarrow> bool \<Rightarrow> 'g \<Rightarrow>
   (error + (seq list \<times> nat list \<times> 'g)) option" where
  "segment_repeat_sequences permutation data templates_norm templates_info distance_thresholds
     length_stats do_normalize warping_window length_step offset_step approx g =
     (case length_stats of (min_length, median_length, max_length) \<Rightarrow>
      case segment_loop
             (driver_search permutation templates_norm templates_info min_length max_length
                do_normalize warping_window length_step)
             distance_thresholds min_length offset_step approx data [] [] g of
        None \<Rightarrow> None
      | Some (Inl e) \<Rightarrow> Some (Inl e)
      | Some (Inr (data_segments, labels, data_rem, g')) \<Rightarrow>
          if length data_rem > 0 then Some (Inr (data_segments @ [data_rem], labels @ [0], g'))
          else Some (Inr (data_segments, labels, g')))"

section \<open>Notions used in the properties\<close>

fun outcome_state :: "'g scan_outcome \<Rightarrow> 'g scan_state" where
  "outcome_state (Break st) = st"
| "outcome_state (Continue st) = st"

text \<open>
  A span \<open>seg\<close> of \<open>data\<close> is accepted with label \<open>label\<close> when the search, called on a
  suffix of \<open>data\<close>, returned a length with that label and an average distance within the
  threshold of the label's group, and \<open>seg\<close> is the prefix of that length of the suffix.
\<close>

definition accepted_span ::
  "('g \<Rightarrow> seq \<Rightarrow> error + ((nat \<times> xreal \<times> nat) \<times> 'g)) \<Rightarrow> xreal list \<Rightarrow> seq \<Rightarrow> seq \<Rightarrow> nat \<Rightarrow> bool" where
  "accepted_span search distance_thresholds data seg label =
     (\<exists>k g g' m d threshold.
        search g (drop k data) = Inr ((m, d, label), g') \<and>
        py_index distance_thresholds (int label - 1) = Some threshold \<and>
        d \<le> threshold \<and> seg = take m (drop k data))"

text \<open>
  Templates as the calibration hands them over: at least one action group, no group and
  no template empty, and one \<open>template_info\<close> per template.
\<close>

definition well_formed_templates :: "seq list list \<Rightarrow> template_info list list \<Rightarrow> bool" where
  "well_formed_templates templates templates_info =
     (templates \<noteq> [] \<and> length templates_info = length templates \<and>
      (\<forall>i < length templates.
         templates ! i \<noteq> [] \<and> length (templates_info ! i) = length (templates ! i) \<and>
         (\<forall>temp \<in> set (templates ! i). temp \<noteq> [])))"

text \<open>A generator without state whose permutation leaves the order as it is.\<close>

definition no_shuffle :: "unit \<Rightarrow> nat list \<Rightarrow> nat list \<times> unit" where
  "no_shuffle g xs = (xs, g)"

section \<open>Distance thresholds (segmentation.py)\<close>







chapter \<open>Properties\<close>

subsection \<open>The mask\<close>

lemma assign_slice_length [simp]: "length (assign_slice lo up v xs) = length xs"
  by (simp add: assign_slice_def)

lemma assign_slice_nth:
  "j < length xs \<Longrightarrow> assign_slice lo up v xs ! j = (if lo \<le> j \<and> j < up then v else xs ! j)"
  by (simp add: assign_slice_def)

lemma assign_column_slice_length [simp]: "length (assign_column_slice lo up i v m) = length m"
  by (simp add: assign_column_slice_def)

lemma assign_column_slice_nth:
  "r < length m \<Longrightarrow>
   assign_column_slice lo up i v m ! r = (if lo \<le> r \<and> r < up then (m ! r)[i := v] else m ! r)"
  by (simp add: assign_column_slice_def)

lemma row_loop_Suc:
  "row_loop sz2 w msk (Suc k) =
     (let m = row_loop sz2 w msk k
      in m[k := assign_slice (nat (max 0 (int k - w))) (nat (min (int sz2) (int k + w) + 1)) (Fin 0) (m ! k)])"
  by (simp add: row_loop_def Let_def)

lemma row_loop_length [simp]: "length (row_loop sz2 w msk k) = length msk"
  by (induction k) (simp_all add: row_loop_Suc Let_def, simp add: row_loop_def)

lemma row_loop_nth:
  "i < length msk \<Longrightarrow>
   row_loop sz2 w msk k ! i =
     (if i < k then assign_slice (nat (max 0 (int i - w))) (nat (min (int sz2) (int i + w) + 1)) (Fin 0) (msk ! i)
      else msk ! i)"
proof (induction k)
  case 0
  then show ?case by (simp add: row_loop_def)
next
  case (Suc k)
  then show ?case
    by (cases "i = k") (auto simp: row_loop_Suc Let_def less_Suc_eq)
qed

lemma col_loop_Suc:
  "col_loop sz1 w msk (Suc k) =
     assign_column_slice (nat (max 0 (int k - w))) (nat (min (int sz1) (int k + w) + 1)) k (Fin 0)
       (col_loop sz1 w msk k)"
  by (simp add: col_loop_def Let_def)

lemma col_loop_length [simp]: "length (col_loop sz1 w msk k) = length msk"
  by (induction k) (simp_all add: col_loop_Suc, simp add: col_loop_def)

lemma col_loop_row_length: "r < length msk \<Longrightarrow> length (col_loop sz1 w msk k ! r) = length (msk ! r)"
  by (induction k) (simp_all add: col_loop_Suc assign_column_slice_nth, simp add: col_loop_def)

lemma col_loop_nth:
  "r < length msk \<Longrightarrow> c < length (msk ! r) \<Longrightarrow>
   col_loop sz1 w msk k ! r ! c =
     (if c < k \<and> nat (max 0 (int c - w)) \<le> r \<and> r < nat (min (int sz1) (int c + w) + 1)
      then Fin 0 else msk ! r ! c)"
proof (induction k)
  case 0
  then show ?case by (simp add: col_loop_def)
next
  case (Suc k)
  then show ?case
    by (cases "c = k") (auto simp: col_loop_Suc assign_column_slice_nth col_loop_row_length less_Suc_eq)
qed

lemma sakoe_chiba_mask_rows:
  "sakoe_chiba_mask sz1 sz2 ww =
     (let w = max \<lceil>float64_round (ww * real (max sz1 sz2))\<rceil> (\<bar>int sz1 - int sz2\<bar> + 1)
      in if sz1 \<le> sz2 then row_loop sz2 w (replicate sz1 (replicate sz2 PInf)) sz1
         else col_loop sz1 w (replicate sz1 (replicate sz2 PInf)) sz2)"
  by (simp add: sakoe_chiba_mask_def row_loop_def col_loop_def Let_def)

lemma sakoe_chiba_mask_length: "length (sakoe_chiba_mask sz1 sz2 ww) = sz1"
  by (simp add: sakoe_chiba_mask_rows Let_def)

lemma sakoe_chiba_mask_row_length:
  "i < sz1 \<Longrightarrow> length (sakoe_chiba_mask sz1 sz2 ww ! i) = sz2"
  by (simp add: sakoe_chiba_mask_rows Let_def row_loop_nth col_loop_row_length)

lemma sakoe_chiba_mask_cell:
  assumes "i < sz1" "j < sz2"
  shows "sakoe_chiba_mask sz1 sz2 ww ! i ! j =
     (if \<bar>int i - int j\<bar> \<le> max \<lceil>float64_round (ww * real (max sz1 sz2))\<rceil> (\<bar>int sz1 - int sz2\<bar> + 1)
      then Fin 0 else PInf)"
proof -
  define w where "w = max \<lceil>float64_round (ww * real (max sz1 sz2))\<rceil> (\<bar>int sz1 - int sz2\<bar> + 1)"
  have w1: "1 \<le> w" by (simp add: w_def)
  show ?thesis
  proof (cases "sz1 \<le> sz2")
    case True
    have "sakoe_chiba_mask sz1 sz2 ww ! i ! j =
        (if nat (max 0 (int i - w)) \<le> j \<and> j < nat (min (int sz2) (int i + w) + 1) then Fin 0 else PInf)"
      using assms True by (simp add: sakoe_chiba_mask_rows Let_def row_loop_nth assign_slice_nth w_def)
    also have "\<dots> = (if \<bar>int i - int j\<bar> \<le> w then Fin 0 else PInf)"
      using assms w1 by auto
    finally show ?thesis by (simp add: w_def)
  next
    case False
    have "sakoe_chiba_mask sz1 sz2 ww ! i ! j =
        (if nat (max 0 (int j - w)) \<le> i \<and> i < nat (min (int sz1) (int j + w) + 1) then Fin 0 else PInf)"
      using assms False by (simp add: sakoe_chiba_mask_rows Let_def col_loop_nth w_def)
    also have "\<dots> = (if \<bar>int i - int j\<bar> \<le> w then Fin 0 else PInf)"
      using assms w1 by auto
    finally show ?thesis by (simp add: w_def)
  qed
qed

lemma monotone_path_iff:
  "monotone_path p \<longleftrightarrow> p \<noteq> [] \<and> (\<forall>k. Suc k < length p \<longrightarrow> step_ok (p ! k) (p ! Suc k))"
proof (induction p rule: monotone_path.induct)
  case 1
  then show ?case by simp
next
  case (2 c)
  then show ?case by simp
next
  case (3 c d cs)
  show ?case
  proof
    assume a: "monotone_path (c # d # cs)"
    then have s: "step_ok c d" and r: "\<forall>k. Suc k < length (d # cs) \<longrightarrow> step_ok ((d # cs) ! k) ((d # cs) ! Suc k)"
      using 3 by auto
    have "step_ok ((c # d # cs) ! k) ((c # d # cs) ! Suc k)" if "Suc k < length (c # d # cs)" for k
    proof (cases k)
      case 0
      then show ?thesis using s by simp
    next
      case (Suc n)
      then show ?thesis using r that by simp
    qed
    then show "c # d # cs \<noteq> [] \<and> (\<forall>k. Suc k < length (c # d # cs) \<longrightarrow> step_ok ((c # d # cs) ! k) ((c # d # cs) ! Suc k))"
      by blast
  next
    assume a: "c # d # cs \<noteq> [] \<and> (\<forall>k. Suc k < length (c # d # cs) \<longrightarrow> step_ok ((c # d # cs) ! k) ((c # d # cs) ! Suc k))"
    then have "step_ok ((c # d # cs) ! 0) ((c # d # cs) ! Suc 0)" by (metis length_Cons not_less_eq zero_less_Suc)
    then have s: "step_ok c d" by simp
    have "step_ok ((d # cs) ! k) ((d # cs) ! Suc k)" if "Suc k < length (d # cs)" for k
    proof -
      have "Suc (Suc k) < length (c # d # cs)" using that by simp
      then have "step_ok ((c # d # cs) ! Suc k) ((c # d # cs) ! Suc (Suc k))" using a by blast
      then show ?thesis by simp
    qed
    then have "monotone_path (d # cs)" using 3 by simp
    then show "monotone_path (c # d # cs)" using s by simp
  qed
qed

lemma band_path_monotone:
  assumes "1 \<le> sz1" "1 \<le> sz2"
  shows "monotone_path (band_path sz1 sz2)"
  unfolding monotone_path_iff
proof (intro conjI allI impI)
  show "band_path sz1 sz2 \<noteq> []" using assms by (simp add: band_path_def)
next
  fix k assume "Suc k < length (band_path sz1 sz2)"
  then have k: "Suc k < max sz1 sz2" by (simp add: band_path_def)
  then have "band_path sz1 sz2 ! k = (min k (sz1 - 1), min k (sz2 - 1))"
    and "band_path sz1 sz2 ! Suc k = (min (Suc k) (sz1 - 1), min (Suc k) (sz2 - 1))"
    by (simp_all add: band_path_def)
  then show "step_ok (band_path sz1 sz2 ! k) (band_path sz1 sz2 ! Suc k)"
    using k assms by (auto simp: min_def max_def split: if_splits)
qed

lemma band_path_ends:
  assumes "1 \<le> sz1" "1 \<le> sz2"
  shows "hd (band_path sz1 sz2) = (0, 0)" and "last (band_path sz1 sz2) = (sz1 - 1, sz2 - 1)"
proof -
  have ne: "[0..<max sz1 sz2] \<noteq> []" using assms by simp
  show "hd (band_path sz1 sz2) = (0, 0)"
    using ne assms by (simp add: band_path_def hd_map hd_upt)
  have "last (band_path sz1 sz2) = (min (max sz1 sz2 - 1) (sz1 - 1), min (max sz1 sz2 - 1) (sz2 - 1))"
    using ne assms by (simp add: band_path_def last_map last_upt)
  then show "last (band_path sz1 sz2) = (sz1 - 1, sz2 - 1)"
    by (auto simp: min_def max_def)
qed

lemma band_path_cells:
  assumes "1 \<le> sz1" "1 \<le> sz2" "(i, j) \<in> set (band_path sz1 sz2)"
  shows "i < sz1 \<and> j < sz2 \<and> \<bar>int i - int j\<bar> \<le> \<bar>int sz1 - int sz2\<bar>"
proof -
  obtain k where "k < max sz1 sz2" "i = min k (sz1 - 1)" "j = min k (sz2 - 1)"
    using assms(3) by (auto simp: band_path_def)
  then show ?thesis using assms(1,2) by (auto simp: min_def max_def split: if_splits)
qed

lemma floor_log2_unit: "1 \<le> x \<Longrightarrow> x < 2 \<Longrightarrow> \<lfloor>log 2 x\<rfloor> = 0"
proof -
  assume "1 \<le> x" "x < 2"
  then have "0 \<le> log 2 x" "log 2 x < 1" by simp_all
  then show ?thesis by linarith
qed

lemmas float64_defs = float64_round_def floor_log2_unit pow2_def round_ties_even_def Let_def

lemma half_window_float64: "float64_round (3 / 2) = 3 / 2"
  by (simp add: float64_defs)

lemma tenth_window_float64: "float64_round (18014398509481985 / 18014398509481984) = 1"
  by (simp add: float64_defs)

lemma floor_log2_eq: "2 ^ k \<le> x \<Longrightarrow> x < 2 ^ (k + 1) \<Longrightarrow> \<lfloor>log 2 x\<rfloor> = int k"
proof -
  assume a: "2 ^ k \<le> x" "x < 2 ^ (k + 1)"
  have pos: "0 < x" using a(1) by (meson less_le_trans zero_less_numeral zero_less_power)
  have "real k \<le> log 2 x" using a(1) pos by (simp add: le_log_iff powr_realpow)
  moreover have "log 2 x < real k + 1" using a(2) pos by (simp add: log_less_iff powr_realpow powr_add)
  ultimately show ?thesis by linarith
qed

text \<open>
  The float64 nearest to 0.28 is \<open>5044031582654956 / 2 ^ 54\<close>; its float64 product with 25
  is the float64 next above 7, and the half-width for two sequences of 25 points is 8.
\<close>

lemma window_028_float64:
  "\<lceil>float64_round (5044031582654956 / 18014398509481984 * real (max 25 (25::nat)))\<rceil> = 8"
proof -
  have "\<lfloor>log 2 (31525197391593475 / 4503599627370496 :: real)\<rfloor> = 2"
    using floor_log2_eq [of 2 "31525197391593475 / 4503599627370496"] by simp
  then have "float64_round (5044031582654956 / 18014398509481984 * real (max 25 (25::nat))) =
      7881299347898369 / 1125899906842624"
    by (simp add: float64_round_def pow2_def round_ties_even_def Let_def)
  then show ?thesis by (simp only:) simp
qed

lemma sakoe_chiba_mask_window_028:
  "sakoe_chiba_mask 25 25 (5044031582654956 / 18014398509481984) ! 0 ! 8 = Fin 0"
  "sakoe_chiba_mask 25 25 (5044031582654956 / 18014398509481984) ! 0 ! 9 = PInf"
  by (simp_all only: sakoe_chiba_mask_cell [of 0 25 8 25] sakoe_chiba_mask_cell [of 0 25 9 25]
      window_028_float64) simp_all

text \<open>
  C5 (as amended): for all lengths \<open>sz1, sz2 \<ge> 1\<close> and every window fraction \<open>w\<close> in
  \<open>(0, 1]\<close>, \<open>sakoe_chiba_mask\<close> returns an \<open>sz1\<close> by \<open>sz2\<close> mask whose cell \<open>(i, j)\<close> is 0
  when \<open>|i - j|\<close> is at most the half-width \<open>max(ceil(p), |sz1 - sz2| + 1)\<close> and infinite
  otherwise, \<open>p\<close> being the float64 product \<open>w * max(sz1, sz2)\<close>, rounded before the ceiling
  is taken; the half-width is at least \<open>|sz1 - sz2|\<close>, and a monotone path of zero-cost
  cells leads from \<open>(0, 0)\<close> to \<open>(sz1 - 1, sz2 - 1)\<close>.
\<close>

theorem sakoe_chiba_mask_valid:
  assumes "1 \<le> sz1" and "1 \<le> sz2" and "0 < w" and "w \<le> 1"
  shows "length (sakoe_chiba_mask sz1 sz2 w) = sz1 \<and>
         (\<forall>i<sz1. length (sakoe_chiba_mask sz1 sz2 w ! i) = sz2) \<and>
         (\<forall>i<sz1. \<forall>j<sz2. sakoe_chiba_mask sz1 sz2 w ! i ! j =
             (if \<bar>int i - int j\<bar> \<le>
                   max \<lceil>float64_round (w * real (max sz1 sz2))\<rceil> (\<bar>int sz1 - int sz2\<bar> + 1)
              then Fin 0 else PInf)) \<and>
         \<bar>int sz1 - int sz2\<bar> \<le>
           max \<lceil>float64_round (w * real (max sz1 sz2))\<rceil> (\<bar>int sz1 - int sz2\<bar> + 1) \<and>
         (\<exists>p. zero_cost_path (sakoe_chiba_mask sz1 sz2 w) p \<and> hd p = (0, 0) \<and>
              last p = (sz1 - 1, sz2 - 1))"
proof -
  have cells: "list_all (\<lambda>(i, j). i < length (sakoe_chiba_mask sz1 sz2 w) \<and>
      j < length (sakoe_chiba_mask sz1 sz2 w ! i) \<and> sakoe_chiba_mask sz1 sz2 w ! i ! j = Fin 0)
      (band_path sz1 sz2)"
    unfolding list_all_iff
  proof (intro ballI, clarify)
    fix i j assume "(i, j) \<in> set (band_path sz1 sz2)"
    then have b: "i < sz1" "j < sz2" "\<bar>int i - int j\<bar> \<le> \<bar>int sz1 - int sz2\<bar>"
      using band_path_cells [OF assms(1,2)] by blast+
    then show "i < length (sakoe_chiba_mask sz1 sz2 w) \<and>
      j < length (sakoe_chiba_mask sz1 sz2 w ! i) \<and> sakoe_chiba_mask sz1 sz2 w ! i ! j = Fin 0"
      by (simp add: sakoe_chiba_mask_length sakoe_chiba_mask_row_length sakoe_chiba_mask_cell)
  qed
  have "zero_cost_path (sakoe_chiba_mask sz1 sz2 w) (band_path sz1 sz2)"
    using cells band_path_monotone [OF assms(1,2)] by (simp add: zero_cost_path_def)
  then have "\<exists>p. zero_cost_path (sakoe_chiba_mask sz1 sz2 w) p \<and> hd p = (0, 0) \<and>
              last p = (sz1 - 1, sz2 - 1)"
    using band_path_ends [OF assms(1,2)] by blast
  then show ?thesis
    by (simp add: sakoe_chiba_mask_length sakoe_chiba_mask_row_length sakoe_chiba_mask_cell)
qed

theorem sakoe_chiba_mask_valid_witness:
  "sakoe_chiba_mask 2 3 (1/2) = [[Fin 0, Fin 0, Fin 0], [Fin 0, Fin 0, Fin 0]] \<and>
   \<lceil>float64_round (1 / 2 * real (max 2 (3::nat)))\<rceil> = 2 \<and>
   (\<exists>p. zero_cost_path (sakoe_chiba_mask 2 3 (1/2)) p \<and> hd p = (0, 0) \<and> last p = (1, 2))"
proof -
  have "sakoe_chiba_mask 2 3 (1/2) = [[Fin 0, Fin 0, Fin 0], [Fin 0, Fin 0, Fin 0]]"
    by (simp add: half_window_float64 sakoe_chiba_mask_def assign_slice_def Let_def
        upt_rec [of 0] upt_rec [of 1] upt_rec [of 2] upt_rec [of "Suc 0"] numeral_2_eq_2 numeral_3_eq_3)
  moreover have "\<lceil>float64_round (1 / 2 * real (max 2 (3::nat)))\<rceil> = 2"
    by (simp add: half_window_float64)
  moreover have "\<exists>p. zero_cost_path (sakoe_chiba_mask 2 3 (1/2)) p \<and> hd p = (0, 0) \<and> last p = (2 - 1, 3 - 1)"
    using sakoe_chiba_mask_valid [of 2 3 "1/2"] by simp
  ultimately show ?thesis by simp
qed

text \<open>
  The claim as stated takes the ceiling of the exact product. The float64 nearest to 0.1
  is \<open>3602879701896397 / 2 ^ 55\<close>, a little above one tenth: for two sequences of 10 points
  the exact product is a little above 1 and its ceiling is 2, while the float64 product is
  1: the half-width is 1, and the cell \<open>(0, 2)\<close>, inside the half-width of the claim, is
  forbidden.
\<close>

theorem sakoe_chiba_mask_exact_product_counterexample:
  "0 < (3602879701896397 / 36028797018963968 :: real) \<and>
   (3602879701896397 / 36028797018963968 :: real) \<le> 1 \<and>
   max \<lceil>3602879701896397 / 36028797018963968 * real (max 10 (10::nat))\<rceil>
       (\<bar>int 10 - int 10\<bar> + 1) = 2 \<and>
   \<bar>int 0 - int 2\<bar> \<le> (2::int) \<and>
   sakoe_chiba_mask 10 10 (3602879701896397 / 36028797018963968) ! 0 ! 2 = PInf"
proof -
  have "sakoe_chiba_mask 10 10 (3602879701896397 / 36028797018963968) ! 0 ! 2 = PInf"
    by (simp add: sakoe_chiba_mask_cell tenth_window_float64)
  then show ?thesis by simp
qed

subsection \<open>Order and arithmetic on extended reals\<close>

lemma xreal_less_simps [simp]:
  "Fin a < Fin b \<longleftrightarrow> a < b"
  "Fin a < PInf"
  "\<not> PInf < x"
  by (cases x; auto simp: less_xreal_def)+

lemma xreal_le_PInf_iff [simp]: "PInf \<le> x \<longleftrightarrow> x = PInf"
  by (cases x) simp_all

lemma xreal_less_PInf_iff: "x < PInf \<longleftrightarrow> x \<noteq> PInf"
  by (cases x) simp_all

lemma xreal_min_Fin [simp]: "min (Fin a) (Fin b) = Fin (min a b)"
  by (simp add: min_def)

subsection \<open>Reconstruction\<close>

lemma take_take_drop: "take off d @ take m (drop off d) @ drop (off + m) d = d"
proof -
  have "take m (drop off d) @ drop (off + m) d = drop off d"
    by (metis append_take_drop_id drop_drop add.commute)
  then show ?thesis by simp
qed

lemma segment_loop_concat_aux:
  assumes run: "segment_loop search th minl step approx data_rem segs labels g = Some y"
  shows "\<forall>segs' labels' rem' g'. y = Inr (segs', labels', rem', g') \<longrightarrow>
      concat segs' @ rem' = concat segs @ data_rem \<and>
      length segs' + length labels = length labels' + length segs"
proof (rule segment_loop.raw_induct
    [where P = "\<lambda>search th minl step approx data_rem segs labels g y.
      \<forall>segs' labels' rem' g'. y = Inr (segs', labels', rem', g') \<longrightarrow>
        concat segs' @ rem' = concat segs @ data_rem \<and>
        length segs' + length labels = length labels' + length segs", OF _ run], goal_cases)
  case (1 loop search th minl step approx data_rem segs labels g y)
  show ?case
  proof (intro allI impI)
    fix segs' labels' rem' g'
    assume y: "y = Inr (segs', labels', rem', g')"
    show "concat segs' @ rem' = concat segs @ data_rem \<and>
          length segs' + length labels = length labels' + length segs"
    proof (cases "length data_rem > minl")
      case False
      with 1(2) y show ?thesis by simp
    next
      case True
      then obtain st where
        sc: "scan search th minl step approx data_rem
               \<lparr>offset = 0, info_best = \<lparr>cand_offset = 0, cand_length = 0, cand_distance = PInf, cand_label = 0\<rparr>,
                match = False, rng = g\<rparr> = Some (Inr st)"
        using 1(2) y by (auto split: option.splits sum.splits)
      show ?thesis
      proof (cases "match st")
        case False
        with 1(2) True sc y show ?thesis by auto
      next
        case m: True
        define off where "off = cand_offset (info_best st)"
        define len where "len = cand_length (info_best st)"
        have rec: "loop search th minl step approx (drop (off + len) data_rem)
            ((if off > 0 then segs @ [take off data_rem] else segs) @ [take len (drop off data_rem)])
            ((if off > 0 then labels @ [0] else labels) @ [cand_label (info_best st)]) (rng st) =
            Some y"
          using 1(2) True sc m by (auto simp: Let_def off_def len_def)
        have ih: "concat segs' @ rem' =
            concat ((if off > 0 then segs @ [take off data_rem] else segs) @ [take len (drop off data_rem)]) @
              drop (off + len) data_rem \<and>
            length segs' + length ((if off > 0 then labels @ [0] else labels) @ [cand_label (info_best st)]) =
            length labels' + length ((if off > 0 then segs @ [take off data_rem] else segs) @ [take len (drop off data_rem)])"
          using 1(1) [OF rec] y by blast
        have "take off data_rem @ take len (drop off data_rem) @ drop (off + len) data_rem = data_rem"
          by (rule take_take_drop)
        moreover have "off = 0 \<Longrightarrow> take len data_rem @ drop len data_rem = data_rem" by simp
        ultimately show ?thesis using ih by (cases "off > 0") (auto simp: add.commute)
      qed
    qed
  qed
qed

subsection \<open>Overflow and the minimum over the groups\<close>

lemma float64_max_bounds: "1000000 \<le> float64_max" "float64_max < 2 ^ 1024"
  by (simp_all add: float64_max_def)

lemma to_float64_small: "x \<le> 1000000 \<Longrightarrow> to_float64 x = Fin x"
  using float64_max_bounds(1) by (simp add: to_float64_def)


lemma xdiv_finite [simp]: "xdiv x c = PInf \<longleftrightarrow> x = PInf"
  by (cases x) simp_all

lemma xsqrt_finite [simp]: "xsqrt x = PInf \<longleftrightarrow> x = PInf"
  by (cases x) simp_all

lemma groups_loop_result:
  "groups_loop f i ts best = Inr (v, l) \<Longrightarrow>
   (v, l) = best \<or> (v < fst best \<and> i < l \<and> l \<le> i + length ts)"
proof (induction ts arbitrary: i best)
  case Nil
  then show ?case by simp
next
  case (Cons t ts)
  then obtain val where val: "f i t = Inr val"
    and rest: "groups_loop f (i + 1) ts (if val < fst best then (val, i + 1) else best) = Inr (v, l)"
    by (auto split: sum.splits)
  from Cons.IH [OF rest] show ?case
    by (auto split: if_splits)
qed

lemma average_distance_label_range:
  assumes "average_distance_to_templates sequence templates warping_window = Inr (d, label)"
  shows "d \<noteq> PInf \<longrightarrow> 1 \<le> label \<and> label \<le> length templates"
proof -
  let ?f = "\<lambda>(i::nat) t. group_average (distance_term sequence warping_window) t"
  have run: "groups_loop ?f 0 templates (PInf, 1) = Inr (d, label)"
    using assms by (simp add: average_distance_to_templates_def min_over_groups_def)
  show ?thesis using groups_loop_result [OF run] by auto
qed

subsection \<open>Labels returned by the search\<close>

lemma search_step_result:
  assumes "search_step s mu sd templates templates_info do_normalize warping_window use_lower_bounds m
             (len_best, d_min, label_best) = Inr (len', d', label')"
  shows "(len', d', label') = (len_best, d_min, label_best) \<or>
         (len' = m \<and> d' < d_min \<and> 1 \<le> label' \<and> label' \<le> length templates)"
proof -
  obtain sn where sn: "normalized_prefix do_normalize s mu sd m = Inr sn"
    using assms by (auto simp: search_step_def split: sum.splits)
  have ev: "(len', d', label') = (len_best, d_min, label_best) \<or>
         (len' = m \<and> d' < d_min \<and> 1 \<le> label' \<and> label' \<le> length templates)"
    if h: "(case average_distance_to_templates sn templates warping_window of
           Inl e \<Rightarrow> Inl e
         | Inr (d, label) \<Rightarrow> if d < d_min then Inr (m, d, label) else Inr (len_best, d_min, label_best))
        = Inr (len', d', label')"
  proof -
    obtain d l where dl: "average_distance_to_templates sn templates warping_window = Inr (d, l)"
      using h by (auto split: sum.splits)
    show ?thesis
    proof (cases "d < d_min")
      case True
      then have "d \<noteq> PInf" by auto
      then have "1 \<le> l \<and> l \<le> length templates"
        using average_distance_label_range [OF dl] by blast
      then show ?thesis using h dl True by simp
    next
      case False
      then show ?thesis using h dl by simp
    qed
  qed
  show ?thesis
    using assms sn ev
    by (auto simp: search_step_def Let_def split: sum.splits if_splits)
qed


lemma fold_search_step_label:
  assumes "fold_err (search_step s mu sd templates templates_info do_normalize warping_window use_lower_bounds)
             ms (len_best, d_min, label_best) = Inr (len', d', label')"
  shows "(label' = label_best \<or> (1 \<le> label' \<and> label' \<le> length templates)) \<and> d' \<le> d_min"
  using assms
proof (induction ms arbitrary: len_best d_min label_best)
  case Nil
  then show ?case by simp
next
  case (Cons m ms)
  then obtain l1 d1 b1 where
    st: "search_step s mu sd templates templates_info do_normalize warping_window use_lower_bounds m
           (len_best, d_min, label_best) = Inr (l1, d1, b1)"
    and rest: "fold_err (search_step s mu sd templates templates_info do_normalize warping_window use_lower_bounds)
             ms (l1, d1, b1) = Inr (len', d', label')"
    by (auto split: sum.splits)
  from search_step_result [OF st] Cons.IH [OF rest] show ?case by auto
qed

lemma search_subsequence_unfold:
  assumes "search_subsequence permutation sequence templates templates_info min_length max_length
             do_normalize warping_window use_lower_bounds length_step g = Inr (best, g')"
  shows "\<exists>s mu sd ms mid.
           fold_err (search_step s mu sd templates templates_info do_normalize warping_window use_lower_bounds)
             (mid # ms) (mid, PInf, 0) = Inr best"
proof -
  define s where "s = (if length sequence > max_length then take max_length sequence else sequence)"
  define minl where "minl = (if min_length \<ge> length s then max 1 (length s - 1) else min_length)"
  define mu where "mu = (if do_normalize then rolling_mean s else s)"
  define sd where "sd = (if do_normalize then rolling_stdev s mu else s)"
  define mid where "mid = round_half_even (minl + length s)"
  obtain v g1 where v: "permutation g (arange minl (length s + 1) length_step) = (v, g1)"
    by (cases "permutation g (arange minl (length s + 1) length_step)") auto
  have "fold_err (search_step s mu sd templates templates_info do_normalize warping_window use_lower_bounds)
          (mid # filter (\<lambda>x. x \<noteq> mid) v) (mid, PInf, 0) = Inr best"
    using assms v
    unfolding search_subsequence_def Let_def s_def [symmetric] minl_def [symmetric] mu_def [symmetric]
      sd_def [symmetric] mid_def [symmetric]
    by (simp del: fold_err.simps split: if_splits sum.splits)
  then show ?thesis by blast
qed

lemma search_subsequence_label_le:
  assumes "search_subsequence permutation sequence templates templates_info min_length max_length
             do_normalize warping_window use_lower_bounds length_step g = Inr ((m, d, label), g')"
  shows "label \<le> length templates"
proof -
  obtain s mu sd ms mid where
    "fold_err (search_step s mu sd templates templates_info do_normalize warping_window use_lower_bounds)
       (mid # ms) (mid, PInf, 0) = Inr (m, d, label)"
    using search_subsequence_unfold [OF assms] by blast
  from fold_search_step_label [OF this] show ?thesis by auto
qed



subsection \<open>One step of the offset scan\<close>

lemma advance_offset_state:
  "match (outcome_state (advance_offset step approx st)) = match st \<and>
   info_best (outcome_state (advance_offset step approx st)) = info_best st \<and>
   rng (outcome_state (advance_offset step approx st)) = rng st \<and>
   offset (outcome_state (advance_offset step approx st)) =
     offset st + (if match st then step else if approx then 5 * step else step)"
  by (simp add: advance_offset_def Let_def)

lemma scan_body_best:
  assumes "scan_body th step approx st (m, d, l) = Inr out"
  shows "rng (outcome_state out) = rng st \<and>
         ((match (outcome_state out) = match st \<and> info_best (outcome_state out) = info_best st) \<or>
          (match (outcome_state out) \<and>
           info_best (outcome_state out) =
             \<lparr>cand_offset = offset st, cand_length = m, cand_distance = d, cand_label = l\<rparr> \<and>
           (\<exists>t. py_index th (int l - 1) = Some t \<and> d \<le> t)))"
  using assms
  by (auto simp: scan_body_def advance_offset_state split: option.splits if_splits)

lemma scan_accepted_aux:
  assumes run: "scan search th minl step approx data_rem st = Some y"
  shows "\<forall>st'. y = Inr st' \<longrightarrow>
           (match st \<longrightarrow> accepted_span search th data_rem
              (take (cand_length (info_best st)) (drop (cand_offset (info_best st)) data_rem))
              (cand_label (info_best st)) ) \<longrightarrow>
           (match st' \<longrightarrow> accepted_span search th data_rem
              (take (cand_length (info_best st')) (drop (cand_offset (info_best st')) data_rem))
              (cand_label (info_best st')))"
proof (rule scan.raw_induct
    [where P = "\<lambda>search th minl step approx data_rem st y.
      \<forall>st'. y = Inr st' \<longrightarrow>
           (match st \<longrightarrow> accepted_span search th data_rem
              (take (cand_length (info_best st)) (drop (cand_offset (info_best st)) data_rem))
              (cand_label (info_best st)) ) \<longrightarrow>
           (match st' \<longrightarrow> accepted_span search th data_rem
              (take (cand_length (info_best st')) (drop (cand_offset (info_best st')) data_rem))
              (cand_label (info_best st')))", OF _ run], goal_cases)
  case (1 loop search th minl step approx data_rem st y)
  show ?case
  proof (intro allI impI)
    fix st'
    assume y: "y = Inr st'"
      and inv: "match st \<longrightarrow> accepted_span search th data_rem
              (take (cand_length (info_best st)) (drop (cand_offset (info_best st)) data_rem))
              (cand_label (info_best st))"
      and m': "match st'"
    show "accepted_span search th data_rem
              (take (cand_length (info_best st')) (drop (cand_offset (info_best st')) data_rem))
              (cand_label (info_best st'))"
    proof (cases "int (length data_rem) - int (offset st) > int minl")
      case False
      then have "st' = st" using 1(2) y by simp
      then show ?thesis using inv m' by simp
    next
      case True
      then obtain m d l g' out where
        se: "search (rng st) (drop (offset st) data_rem) = Inr ((m, d, l), g')"
        and bo: "scan_body th step approx (st\<lparr>rng := g'\<rparr>) (m, d, l) = Inr out"
        using 1(2) y by (auto split: sum.splits)
      have inv1: "match (outcome_state out) \<longrightarrow> accepted_span search th data_rem
              (take (cand_length (info_best (outcome_state out)))
                 (drop (cand_offset (info_best (outcome_state out))) data_rem))
              (cand_label (info_best (outcome_state out)))"
      proof
        assume mo: "match (outcome_state out)"
        from scan_body_best [OF bo] consider
          (same) "match (outcome_state out) = match st" "info_best (outcome_state out) = info_best st"
          | (new) t where "info_best (outcome_state out) =
              \<lparr>cand_offset = offset st, cand_length = m, cand_distance = d, cand_label = l\<rparr>"
              "py_index th (int l - 1) = Some t" "d \<le> t"
          by auto
        then show "accepted_span search th data_rem
              (take (cand_length (info_best (outcome_state out)))
                 (drop (cand_offset (info_best (outcome_state out))) data_rem))
              (cand_label (info_best (outcome_state out)))"
        proof cases
          case same
          then show ?thesis using inv mo by simp
        next
          case new
          have "accepted_span search th data_rem (take m (drop (offset st) data_rem)) l"
            unfolding accepted_span_def using se new(2,3) by blast
          then show ?thesis using new(1) by simp
        qed
      qed
      show ?thesis
      proof (cases out)
        case (Break s1)
        then have "st' = s1" using 1(2) y True se bo by simp
        then show ?thesis using inv1 Break m' by simp
      next
        case (Continue s1)
        then have "loop search th minl step approx data_rem s1 = Some y"
          using 1(2) True se bo by simp
        from 1(1) [OF this] y inv1 Continue m' show ?thesis by simp
      qed
    qed
  qed
qed

subsection \<open>Labels emitted by the driver\<close>

lemma accepted_span_drop:
  "accepted_span search th (drop n data) seg l \<Longrightarrow> accepted_span search th data seg l"
  unfolding accepted_span_def
  by (metis drop_drop)

lemma scan_accepted:
  assumes "scan search th minl step approx data_rem
             \<lparr>offset = 0, info_best = \<lparr>cand_offset = 0, cand_length = 0, cand_distance = PInf, cand_label = 0\<rparr>,
              match = False, rng = g\<rparr> = Some (Inr st)"
    and "match st"
  shows "accepted_span search th data_rem
           (take (cand_length (info_best st)) (drop (cand_offset (info_best st)) data_rem))
           (cand_label (info_best st))"
  using scan_accepted_aux [OF assms(1)] assms(2) by simp

lemma segment_loop_labels_aux:
  assumes run: "segment_loop search th minl step approx data_rem segs labels g = Some y"
  shows "\<forall>segs' labels' rem' g'. y = Inr (segs', labels', rem', g') \<longrightarrow>
           (\<exists>n. data_rem = drop n data) \<longrightarrow> length segs = length labels \<longrightarrow>
           (\<forall>(seg, l) \<in> set (zip segs labels). l \<noteq> 0 \<longrightarrow> accepted_span search th data seg l) \<longrightarrow>
           (\<forall>(seg, l) \<in> set (zip segs' labels'). l \<noteq> 0 \<longrightarrow> accepted_span search th data seg l)"
proof (rule segment_loop.raw_induct
    [where P = "\<lambda>search th minl step approx data_rem segs labels g y.
      \<forall>segs' labels' rem' g'. y = Inr (segs', labels', rem', g') \<longrightarrow>
           (\<exists>n. data_rem = drop n data) \<longrightarrow> length segs = length labels \<longrightarrow>
           (\<forall>(seg, l) \<in> set (zip segs labels). l \<noteq> 0 \<longrightarrow> accepted_span search th data seg l) \<longrightarrow>
           (\<forall>(seg, l) \<in> set (zip segs' labels'). l \<noteq> 0 \<longrightarrow> accepted_span search th data seg l)",
     OF _ run], goal_cases)
  case (1 loop search th minl step approx data_rem segs labels g y)
  show ?case
  proof (intro allI impI)
    fix segs' labels' rem' g'
    assume y: "y = Inr (segs', labels', rem', g')"
      and suf: "\<exists>n. data_rem = drop n data"
      and len: "length segs = length labels"
      and inv: "\<forall>(seg, l) \<in> set (zip segs labels). l \<noteq> 0 \<longrightarrow> accepted_span search th data seg l"
    show "\<forall>(seg, l) \<in> set (zip segs' labels'). l \<noteq> 0 \<longrightarrow> accepted_span search th data seg l"
    proof (cases "length data_rem > minl")
      case False
      with 1(2) y inv show ?thesis by simp
    next
      case True
      then obtain st where
        sc: "scan search th minl step approx data_rem
               \<lparr>offset = 0, info_best = \<lparr>cand_offset = 0, cand_length = 0, cand_distance = PInf, cand_label = 0\<rparr>,
                match = False, rng = g\<rparr> = Some (Inr st)"
        using 1(2) y by (auto split: option.splits sum.splits)
      show ?thesis
      proof (cases "match st")
        case False
        with 1(2) True sc y have "segs' = segs @ [data_rem]" "labels' = labels @ [0]" by auto
        then show ?thesis using inv len by auto
      next
        case m: True
        define off where "off = cand_offset (info_best st)"
        define m where "m = cand_length (info_best st)"
        define lab where "lab = cand_label (info_best st)"
        define segs1 where "segs1 = (if off > 0 then segs @ [take off data_rem] else segs) @ [take m (drop off data_rem)]"
        define labels1 where "labels1 = (if off > 0 then labels @ [0] else labels) @ [lab]"
        have rec: "loop search th minl step approx (drop (off + m) data_rem) segs1 labels1 (rng st) = Some y"
          using 1(2) True sc m by (auto simp: Let_def off_def m_def lab_def segs1_def labels1_def)
        have acc: "accepted_span search th data (take m (drop off data_rem)) lab"
          using scan_accepted [OF sc m] suf accepted_span_drop
          unfolding off_def m_def lab_def by blast
        have suf1: "\<exists>n. drop (off + m) data_rem = drop n data" using suf by auto
        have len1: "length segs1 = length labels1" using len by (simp add: segs1_def labels1_def)
        have inv1: "\<forall>(seg, l) \<in> set (zip segs1 labels1). l \<noteq> 0 \<longrightarrow> accepted_span search th data seg l"
          using inv len acc by (auto simp: segs1_def labels1_def)
        from 1(1) [OF rec] y suf1 len1 inv1 show ?thesis by blast
      qed
    qed
  qed
qed

subsection \<open>A scan that accepts nothing\<close>

lemma scan_no_match:
  assumes step: "0 < step"
    and rej: "\<And>g k. int (length data_rem) - int k > int minl \<Longrightarrow>
        \<exists>m d l g' t. search g (drop k data_rem) = Inr ((m, d, l), g') \<and>
          py_index th (int l - 1) = Some t \<and> \<not> d \<le> t"
  shows "\<not> match st \<Longrightarrow>
         \<exists>st'. scan search th minl step approx data_rem st = Some (Inr st') \<and> \<not> match st'"
proof (induction "length data_rem - offset st" arbitrary: st rule: less_induct)
  case less
  show ?case
  proof (cases "int (length data_rem) - int (offset st) > int minl")
    case False
    then have "scan search th minl step approx data_rem st = Some (Inr st)"
      by (subst scan.simps) simp
    then show ?thesis using less.prems by blast
  next
    case True
    from rej [OF True, of "rng st"] obtain m d l g' t where
      se: "search (rng st) (drop (offset st) data_rem) = Inr ((m, d, l), g')"
      and t: "py_index th (int l - 1) = Some t" and nd: "\<not> d \<le> t"
      by blast
    define st1 where "st1 = st\<lparr>rng := g', offset := offset st + (if approx then 5 * step else step)\<rparr>"
    have bo: "scan_body th step approx (st\<lparr>rng := g'\<rparr>) (m, d, l) = Inr (Continue st1)"
      using t nd less.prems by (simp add: scan_body_def advance_offset_def Let_def st1_def)
    have unfold: "scan search th minl step approx data_rem st = scan search th minl step approx data_rem st1"
      using True se bo by (subst scan.simps) simp
    have "length data_rem - offset st1 < length data_rem - offset st"
      using True step by (auto simp: st1_def)
    moreover have "\<not> match st1" using less.prems by (simp add: st1_def)
    ultimately show ?thesis using less.hyps [of st1] unfold by simp
  qed
qed

subsection \<open>When the search returns\<close>

lemma fold_err_returns:
  assumes "\<And>x s. x \<in> set xs \<Longrightarrow> \<exists>s'. f x s = Inr s'"
  shows "\<exists>s'. fold_err f xs s = Inr s'"
  using assms
proof (induction xs arbitrary: s)
  case Nil
  then show ?case by simp
next
  case (Cons x xs)
  then obtain s1 where "f x s = Inr s1" by (meson list.set_intros(1))
  moreover have "\<exists>s'. fold_err f xs s1 = Inr s'" using Cons by simp
  ultimately show ?case by simp
qed

lemma group_average_returns:
  assumes "t \<noteq> []" and "\<And>temp. temp \<in> set t \<Longrightarrow> \<exists>d. f temp = Inr d"
  shows "\<exists>v. group_average f t = Inr v"
proof -
  have "\<exists>s'. fold_err (\<lambda>temp val. case f temp of Inl e \<Rightarrow> Inl e | Inr d \<Rightarrow> Inr (xadd val d)) t (Fin 0) = Inr s'"
  proof (rule fold_err_returns)
    fix x s assume "x \<in> set t"
    then obtain d where "f x = Inr d" using assms(2) by blast
    then show "\<exists>s'. (case f x of Inl e \<Rightarrow> Inl e | Inr d \<Rightarrow> Inr (xadd s d)) = Inr s'" by simp
  qed
  then show ?thesis using assms(1) by (auto simp: group_average_def)
qed

lemma groups_loop_returns:
  assumes "\<And>k. k < length ts \<Longrightarrow> \<exists>v. f (i + k) (ts ! k) = Inr v"
  shows "\<exists>r. groups_loop f i ts best = Inr r"
  using assms
proof (induction ts arbitrary: i best)
  case Nil
  then show ?case by simp
next
  case (Cons t ts)
  from Cons.prems [of 0] obtain v where v: "f i t = Inr v" by auto
  have "\<exists>v. f (i + 1 + k) (ts ! k) = Inr v" if "k < length ts" for k
    using Cons.prems [of "Suc k"] that by simp
  then have "\<exists>r. groups_loop f (i + 1) ts (if v < fst best then (v, i + 1) else best) = Inr r"
    by (rule Cons.IH)
  then show ?case using v by simp
qed

lemma lower_bound1_returns:
  assumes "sn \<noteq> []" and "\<forall>t \<in> set templates_info. t \<noteq> []"
  shows "\<exists>a. average_lb_distance_to_templates1 sn templates_info = Inr a"
proof -
  have "\<exists>r. groups_loop (\<lambda>i t. group_average (lb1_term sn) t) 0 templates_info (PInf, 1) = Inr r"
  proof (rule groups_loop_returns)
    fix k assume k: "k < length templates_info"
    then have "templates_info ! k \<noteq> []" using assms(2) by simp
    then show "\<exists>v. group_average (lb1_term sn) (templates_info ! k) = Inr v"
      using assms(1) by (intro group_average_returns) (auto simp: lb1_term_def)
  qed
  then show ?thesis
    by (auto simp: average_lb_distance_to_templates1_def min_over_groups_def split: sum.splits)
qed

lemma lower_bound2_returns:
  assumes "sn \<noteq> []" and "well_formed_templates templates templates_info"
  shows "\<exists>b. average_lb_distance_to_templates2 sn templates templates_info = Inr b"
proof -
  define min_seq where "min_seq = map (\<lambda>j. fold min (tl (column sn j)) (hd (column sn j))) [0..<length (hd sn)]"
  define max_seq where "max_seq = map (\<lambda>j. fold max (tl (column sn j)) (hd (column sn j))) [0..<length (hd sn)]"
  let ?f = "\<lambda>i t. group_average
                            (\<lambda>(j, temp).
                               if i < length templates_info \<and> j < length (templates_info ! i)
                               then lb2_term sn min_seq max_seq temp (templates_info ! i ! j)
                               else Inl IndexError)
                            (zip [0..<length t] t)"
  have "\<exists>r. groups_loop ?f 0 templates (PInf, 1) = Inr r"
  proof (rule groups_loop_returns)
    fix k assume k: "k < length templates"
    then have wf: "templates ! k \<noteq> []" "length (templates_info ! k) = length (templates ! k)"
      "\<forall>temp \<in> set (templates ! k). temp \<noteq> []" "k < length templates_info"
      using assms(2) by (auto simp: well_formed_templates_def)
    show "\<exists>v. ?f (0 + k) (templates ! k) = Inr v"
    proof -
      let ?g = "\<lambda>(j, temp).
                 if k < length templates_info \<and> j < length (templates_info ! k)
                 then lb2_term sn min_seq max_seq temp (templates_info ! k ! j)
                 else Inl IndexError"
      have ne: "zip [0..<length (templates ! k)] (templates ! k) \<noteq> []"
        using wf(1) by (cases "templates ! k") (auto simp: upt_rec)
      have ok: "\<exists>d. ?g jt = Inr d" if mem: "jt \<in> set (zip [0..<length (templates ! k)] (templates ! k))" for jt
      proof -
        obtain j temp where jt: "jt = (j, temp)" "j < length (templates ! k)" "temp \<in> set (templates ! k)"
          using mem by (auto simp: set_zip)
        then have "temp \<noteq> []" using wf(3) by blast
        then show ?thesis using jt wf assms(1) by (simp add: lb2_term_def Let_def)
      qed
      from group_average_returns [of "zip [0..<length (templates ! k)] (templates ! k)" ?g, OF ne ok]
      show ?thesis unfolding add_0 .
    qed
  qed
  then obtain r where r: "groups_loop ?f 0 templates (PInf, 1) = Inr r" by blast
  have "average_lb_distance_to_templates2 sn templates templates_info =
      (case groups_loop ?f 0 templates (PInf, 1) of
         Inl e \<Rightarrow> Inl e | Inr (val_min, label) \<Rightarrow> Inr val_min)"
    unfolding min_seq_def max_seq_def using assms(1)
    by (simp add: average_lb_distance_to_templates2_def min_over_groups_def Let_def)
  then show ?thesis using r by (cases r) simp
qed

lemma average_distance_returns:
  assumes "sn \<noteq> []" and "well_formed_templates templates templates_info"
  shows "\<exists>r. average_distance_to_templates sn templates warping_window = Inr r"
  unfolding average_distance_to_templates_def min_over_groups_def
proof (rule groups_loop_returns)
  fix k assume k: "k < length templates"
  then have wf: "templates ! k \<noteq> []" "\<forall>temp \<in> set (templates ! k). temp \<noteq> []"
    using assms(2) by (auto simp: well_formed_templates_def)
  show "\<exists>v. group_average (distance_term sn warping_window) (templates ! k) = Inr v"
  proof (rule group_average_returns [OF wf(1)])
    fix temp assume "temp \<in> set (templates ! k)"
    then have "temp \<noteq> []" using wf(2) by blast
    then show "\<exists>d. distance_term sn warping_window temp = Inr d"
      using assms(1) by (simp add: distance_term_def njit_dtw_def Let_def)
  qed
qed

lemma round_half_even_between:
  assumes "a \<le> b"
  shows "a \<le> round_half_even (a + b) \<and> round_half_even (a + b) \<le> b"
proof (cases "even (a + b)")
  case True
  then show ?thesis using assms by (auto simp: round_half_even_def)
next
  case False
  then have "a \<noteq> b" by auto
  then have "a < b" using assms by simp
  then have "a \<le> (a + b) div 2 \<and> (a + b) div 2 + 1 \<le> b" using False by presburger
  then show ?thesis using False by (auto simp: round_half_even_def)
qed

lemma arange_bounds:
  assumes "0 < step" and "x \<in> set (arange start stop step)"
  shows "start \<le> x \<and> x < stop"
proof -
  obtain k where k: "k < (stop - start + step - 1) div step" and x: "x = start + k * step"
    using assms(2) by (auto simp: arange_def)
  from k have "Suc k \<le> (stop - start + step - 1) div step" by simp
  then have "Suc k * step \<le> stop - start + step - 1"
    using assms(1) by (simp add: less_eq_div_iff_mult_less_eq)
  then have "k * step + step \<le> stop - start + step - 1" by simp
  then have "k * step < stop - start" using assms(1) by linarith
  then show ?thesis using x by linarith
qed

lemma search_step_returns:
  assumes "s \<noteq> []" and "1 \<le> m" and "m \<le> length s"
    and "well_formed_templates templates templates_info"
    and "do_normalize \<longrightarrow> length mu = length s \<and> length sd = length s"
  shows "\<exists>r. search_step s mu sd templates templates_info do_normalize warping_window
               use_lower_bounds m best = Inr r"
proof -
  obtain sn where sn: "normalized_prefix do_normalize s mu sd m = Inr sn" and ne: "sn \<noteq> []"
  proof (cases do_normalize)
    case True
    then have "py_index mu (int m - 1) = Some (mu ! (m - 1))" "py_index sd (int m - 1) = Some (sd ! (m - 1))"
      using assms(2,3,5) by (auto simp: py_index_def Let_def nat_diff_distrib)
    then have "normalized_prefix do_normalize s mu sd m =
        Inr (map (\<lambda>row. map (\<lambda>(x, mu_j, sd_j). (x - mu_j) / sd_j) (zip row (zip (mu ! (m - 1)) (sd ! (m - 1))))) (take m s))"
      using True by (simp add: normalized_prefix_def)
    moreover have "take m s \<noteq> []" using assms(1,2) by (cases s) auto
    ultimately show ?thesis using that by simp
  next
    case False
    then have "normalized_prefix do_normalize s mu sd m = Inr (take m s)"
      by (simp add: normalized_prefix_def)
    moreover have "take m s \<noteq> []" using assms(1,2) by (cases s) auto
    ultimately show ?thesis using that by simp
  qed
  have info_ne: "\<forall>t \<in> set templates_info. t \<noteq> []"
  proof
    fix t assume "t \<in> set templates_info"
    then obtain i where i: "i < length templates_info" "t = templates_info ! i"
      by (metis in_set_conv_nth)
    then show "t \<noteq> []" using assms(4) by (auto simp: well_formed_templates_def)
  qed
  obtain a where a: "average_lb_distance_to_templates1 sn templates_info = Inr a"
    using lower_bound1_returns [OF ne info_ne] by blast
  obtain b where b: "average_lb_distance_to_templates2 sn templates templates_info = Inr b"
    using lower_bound2_returns [OF ne assms(4)] by blast
  obtain d l where d: "average_distance_to_templates sn templates warping_window = Inr (d, l)"
    using average_distance_returns [OF ne assms(4)] by (metis surj_pair)
  show ?thesis
    using sn a b d by (cases best) (auto simp: search_step_def Let_def)
qed

lemma fold_search_step_length:
  assumes "fold_err (search_step s mu sd templates templates_info do_normalize warping_window use_lower_bounds)
             ms (len_best, d_min, label_best) = Inr (len', d', label')"
  shows "len' = len_best \<or> len' \<in> set ms"
  using assms
proof (induction ms arbitrary: len_best d_min label_best)
  case Nil
  then show ?case by simp
next
  case (Cons m ms)
  then obtain l1 d1 b1 where
    st: "search_step s mu sd templates templates_info do_normalize warping_window use_lower_bounds m
           (len_best, d_min, label_best) = Inr (l1, d1, b1)"
    and rest: "fold_err (search_step s mu sd templates templates_info do_normalize warping_window use_lower_bounds)
             ms (l1, d1, b1) = Inr (len', d', label')"
    by (auto split: sum.splits)
  from search_step_result [OF st] Cons.IH [OF rest] show ?case by auto
qed

lemma rolling_lengths:
  "length (rolling_mean s) = length s" "length (rolling_stdev s mu) = length s"
  by (simp_all add: rolling_mean_def rolling_stdev_def)

lemma search_subsequence_returns:
  assumes "sequence \<noteq> []" and "1 \<le> min_length" and "1 \<le> max_length" and "0 < length_step"
    and "well_formed_templates templates templates_info"
    and "\<And>g xs. set (fst (permutation g xs)) \<subseteq> set xs"
  shows "\<exists>m d label g'.
           search_subsequence permutation sequence templates templates_info min_length max_length
             do_normalize warping_window use_lower_bounds length_step g = Inr ((m, d, label), g') \<and>
           1 \<le> m \<and> m \<le> length sequence"
proof -
  define s where "s = (if length sequence > max_length then take max_length sequence else sequence)"
  define minl where "minl = (if min_length \<ge> length s then max 1 (length s - 1) else min_length)"
  define mu where "mu = (if do_normalize then rolling_mean s else s)"
  define sd where "sd = (if do_normalize then rolling_stdev s mu else s)"
  define mid where "mid = round_half_even (minl + length s)"
  obtain v g1 where v: "permutation g (arange minl (length s + 1) length_step) = (v, g1)"
    by (cases "permutation g (arange minl (length s + 1) length_step)") auto
  have sne: "s \<noteq> []" and sle: "length s \<le> length sequence" and s1: "1 \<le> length s"
    using assms(1,3) by (auto simp: s_def Suc_le_eq)
  have m1: "1 \<le> minl" and m2: "minl \<le> length s"
    using assms(2) s1 by (auto simp: minl_def)
  have mid: "1 \<le> mid \<and> mid \<le> length s"
    using round_half_even_between [OF m2] m1 by (auto simp: mid_def)
  have vs: "1 \<le> x \<and> x \<le> length s" if "x \<in> set v" for x
  proof -
    have "x \<in> set (arange minl (length s + 1) length_step)"
      using assms(6) [of g "arange minl (length s + 1) length_step"] v that by auto
    from arange_bounds [OF assms(4) this] m1 show ?thesis by simp
  qed
  have norm: "do_normalize \<longrightarrow> length mu = length s \<and> length sd = length s"
    by (simp add: mu_def sd_def rolling_lengths)
  let ?step = "search_step s mu sd templates templates_info do_normalize warping_window use_lower_bounds"
  have "\<exists>r. fold_err ?step (mid # filter (\<lambda>x. x \<noteq> mid) v) (mid, PInf, 0) = Inr r"
  proof (rule fold_err_returns)
    fix x best assume "x \<in> set (mid # filter (\<lambda>x. x \<noteq> mid) v)"
    then have "1 \<le> x \<and> x \<le> length s" using mid vs by auto
    then show "\<exists>s'. ?step x best = Inr s'"
      using search_step_returns [OF sne _ _ assms(5) norm] by blast
  qed
  then obtain m d label where
    run: "fold_err ?step (mid # filter (\<lambda>x. x \<noteq> mid) v) (mid, PInf, 0) = Inr (m, d, label)"
    by (metis surj_pair)
  from fold_search_step_length [OF run] have "m = mid \<or> m \<in> set (mid # filter (\<lambda>x. x \<noteq> mid) v)" .
  then have "1 \<le> m \<and> m \<le> length s" using mid vs by auto
  then have mb: "1 \<le> m \<and> m \<le> length sequence" using sle by linarith
  have "search_subsequence permutation sequence templates templates_info min_length max_length
             do_normalize warping_window use_lower_bounds length_step g = Inr ((m, d, label), g1)"
    using run v assms(4)
    unfolding search_subsequence_def Let_def s_def [symmetric] minl_def [symmetric] mu_def [symmetric]
      sd_def [symmetric] mid_def [symmetric]
    by (simp del: fold_err.simps)
  then show ?thesis using mb by blast
qed

subsection \<open>When the driver returns\<close>

lemma scan_body_returns:
  assumes "py_index th (int l - 1) = Some t"
  shows "\<exists>out. scan_body th step approx st (m, d, l) = Inr out \<and>
           (out = Break st \<or>
            offset (outcome_state out) =
              offset st + (if match (outcome_state out) then step else if approx then 5 * step else step))"
  using assms by (auto simp: scan_body_def advance_offset_state)

lemma scan_returns:
  assumes step: "0 < step"
    and ok: "\<And>g k. k < length data_rem \<Longrightarrow>
        \<exists>m d l g'. search g (drop k data_rem) = Inr ((m, d, l), g') \<and> 1 \<le> m \<and>
          py_index th (int l - 1) \<noteq> None"
  shows "(match st \<longrightarrow> 1 \<le> cand_length (info_best st)) \<Longrightarrow>
         \<exists>st'. scan search th minl step approx data_rem st = Some (Inr st') \<and>
               (match st' \<longrightarrow> 1 \<le> cand_length (info_best st'))"
proof (induction "length data_rem - offset st" arbitrary: st rule: less_induct)
  case less
  show ?case
  proof (cases "int (length data_rem) - int (offset st) > int minl")
    case False
    then have "scan search th minl step approx data_rem st = Some (Inr st)"
      by (subst scan.simps) simp
    then show ?thesis using less.prems by blast
  next
    case True
    then have "offset st < length data_rem" by linarith
    from ok [OF this, of "rng st"] obtain m d l g' t where
      se: "search (rng st) (drop (offset st) data_rem) = Inr ((m, d, l), g')"
      and m: "1 \<le> m" and t: "py_index th (int l - 1) = Some t"
      by auto
    obtain out where bo: "scan_body th step approx (st\<lparr>rng := g'\<rparr>) (m, d, l) = Inr out"
      and adv: "out = Break (st\<lparr>rng := g'\<rparr>) \<or>
            offset (outcome_state out) =
              offset st + (if match (outcome_state out) then step else if approx then 5 * step else step)"
      using scan_body_returns [OF t, of step approx "st\<lparr>rng := g'\<rparr>" m d] by auto
    have inv: "match (outcome_state out) \<longrightarrow> 1 \<le> cand_length (info_best (outcome_state out))"
      using scan_body_best [OF bo] less.prems m by auto
    show ?thesis
    proof (cases out)
      case (Break s1)
      then have "scan search th minl step approx data_rem st = Some (Inr s1)"
        using True se bo by (subst scan.simps) simp
      then show ?thesis using inv Break by simp
    next
      case (Continue s1)
      then have unfold: "scan search th minl step approx data_rem st =
          scan search th minl step approx data_rem s1"
        using True se bo by (subst scan.simps) simp
      have "offset s1 > offset st" using adv Continue step by (auto split: if_splits)
      then have "length data_rem - offset s1 < length data_rem - offset st"
        using \<open>offset st < length data_rem\<close> by linarith
      moreover have "match s1 \<longrightarrow> 1 \<le> cand_length (info_best s1)" using inv Continue by simp
      ultimately show ?thesis using less.hyps [of s1] unfold by simp
    qed
  qed
qed

lemma segment_loop_returns:
  assumes step: "0 < step"
    and ok: "\<And>g k. k < length data \<Longrightarrow>
        \<exists>m d l g'. search g (drop k data) = Inr ((m, d, l), g') \<and> 1 \<le> m \<and>
          py_index th (int l - 1) \<noteq> None"
  shows "\<exists>n. data_rem = drop n data \<Longrightarrow>
         \<exists>r. segment_loop search th minl step approx data_rem segs labels g = Some (Inr r)"
proof (induction "length data_rem" arbitrary: data_rem segs labels g rule: less_induct)
  case less
  show ?case
  proof (cases "length data_rem > minl")
    case False
    then show ?thesis by (subst segment_loop.simps) simp
  next
    case True
    obtain n where n: "data_rem = drop n data" using less.prems by blast
    have ok': "\<exists>m d l g'. search g (drop k data_rem) = Inr ((m, d, l), g') \<and> 1 \<le> m \<and>
          py_index th (int l - 1) \<noteq> None" if "k < length data_rem" for g k
    proof -
      have "k + n < length data" using that n by simp
      from ok [OF this, of g] show ?thesis by (simp add: n)
    qed
    let ?init = "\<lparr>offset = 0, info_best = \<lparr>cand_offset = 0, cand_length = 0, cand_distance = PInf, cand_label = 0\<rparr>,
                 match = False, rng = g\<rparr>"
    have "match ?init \<longrightarrow> 1 \<le> cand_length (info_best ?init)" by simp
    from scan_returns [where search = search and data_rem = data_rem and th = th and st = ?init
        and minl = minl and approx = approx, OF step ok'] this obtain st where
      sc: "scan search th minl step approx data_rem ?init = Some (Inr st)"
      and inv: "match st \<longrightarrow> 1 \<le> cand_length (info_best st)"
      by blast
    show ?thesis
    proof (cases "match st")
      case False
      then show ?thesis using True sc by (subst segment_loop.simps) simp
    next
      case m: True
      define off where "off = cand_offset (info_best st)"
      define len where "len = cand_length (info_best st)"
      define segs1 where "segs1 = (if off > 0 then segs @ [take off data_rem] else segs) @ [take len (drop off data_rem)]"
      define labels1 where "labels1 = (if off > 0 then labels @ [0] else labels) @ [cand_label (info_best st)]"
      have unfold: "segment_loop search th minl step approx data_rem segs labels g =
          segment_loop search th minl step approx (drop (off + len) data_rem) segs1 labels1 (rng st)"
        using True sc m
        by (subst segment_loop.simps) (auto simp: Let_def off_def len_def segs1_def labels1_def)
      have "1 \<le> len" using inv m by (simp add: len_def)
      then have shorter: "length (drop (off + len) data_rem) < length data_rem" using True by simp
      have "\<exists>n'. drop (off + len) data_rem = drop n' data" using n by auto
      from less.hyps [OF shorter this] unfold show ?thesis by simp
    qed
  qed
qed

lemma segment_repeat_sequences_loop:
  assumes "segment_repeat_sequences permutation data templates_norm templates_info distance_thresholds
             (min_length, median_length, max_length) do_normalize warping_window length_step offset_step
             approx g = Some (Inr (data_segments, labels, g'))"
  shows "\<exists>segs labs data_rem.
           segment_loop
             (driver_search permutation templates_norm templates_info min_length max_length
                do_normalize warping_window length_step)
             distance_thresholds min_length offset_step approx data [] [] g =
             Some (Inr (segs, labs, data_rem, g')) \<and>
           data_segments = (if length data_rem > 0 then segs @ [data_rem] else segs) \<and>
           labels = (if length data_rem > 0 then labs @ [0] else labs)"
proof -
  let ?loop = "segment_loop
             (driver_search permutation templates_norm templates_info min_length max_length
                do_normalize warping_window length_step)
             distance_thresholds min_length offset_step approx data [] [] g"
  obtain segs labs data_rem g1 where run: "?loop = Some (Inr (segs, labs, data_rem, g1))"
    using assms
    by (auto simp: segment_repeat_sequences_def split: option.splits sum.splits)
  then have "g1 = g'"
    and "data_segments = (if length data_rem > 0 then segs @ [data_rem] else segs)"
    and "labels = (if length data_rem > 0 then labs @ [0] else labs)"
    using assms by (auto simp: segment_repeat_sequences_def split: if_splits)
  then show ?thesis using run by blast
qed

lemma py_index_label:
  assumes "l \<le> length xs" and "xs \<noteq> []"
  shows "py_index xs (int l - 1) = Some (if l = 0 then last xs else xs ! (l - 1))"
proof (cases "l = 0")
  case True
  have "Suc 0 \<le> length xs" using assms(2) by (cases xs) simp_all
  moreover have "nat (int (length xs) - 1) = length xs - 1" by simp
  ultimately show ?thesis using True assms(2) by (simp add: py_index_def last_conv_nth)
next
  case False
  then show ?thesis using assms(1) by (auto simp: py_index_def nat_diff_distrib)
qed

lemma segment_repeat_sequences_returns:
  assumes "0 < offset_step" and "0 < length_step" and "1 \<le> min_length" and "1 \<le> max_length"
    and "well_formed_templates templates_norm templates_info"
    and "length distance_thresholds = length templates_norm"
    and perm: "\<And>g xs. set (fst (permutation g xs)) \<subseteq> set xs"
  shows "\<exists>data_segments labels g'.
           segment_repeat_sequences permutation data templates_norm templates_info distance_thresholds
             (min_length, median_length, max_length) do_normalize warping_window length_step
             offset_step approx g = Some (Inr (data_segments, labels, g'))"
proof -
  let ?search = "driver_search permutation templates_norm templates_info min_length max_length
                do_normalize warping_window length_step"
  have ne: "templates_norm \<noteq> []" using assms(5) by (simp add: well_formed_templates_def)
  have ok: "\<exists>m d l g'. ?search g (drop k data) = Inr ((m, d, l), g') \<and> 1 \<le> m \<and>
          py_index distance_thresholds (int l - 1) \<noteq> None" if k: "k < length data" for g k
  proof -
    have "drop k data \<noteq> []" using k by simp
    from search_subsequence_returns [where permutation = permutation and g = g
        and do_normalize = do_normalize and warping_window = warping_window
        and use_lower_bounds = True, OF this assms(3,4,2,5) perm]
    obtain m d l g' where
      run: "search_subsequence permutation (drop k data) templates_norm templates_info min_length
              max_length do_normalize warping_window True length_step g = Inr ((m, d, l), g')"
      and m: "1 \<le> m" by blast
    from search_subsequence_label_le [OF run] have "l \<le> length distance_thresholds"
      using assms(6) by simp
    moreover have "distance_thresholds \<noteq> []" using ne assms(6) by auto
    ultimately have "py_index distance_thresholds (int l - 1) \<noteq> None"
      by (simp add: py_index_label)
    then show ?thesis using run m by (auto simp: driver_search_def)
  qed
  have "data = drop 0 data" by simp
  then have "\<exists>n. data = drop n data" by blast
  from segment_loop_returns [where search = ?search and data = data and th = distance_thresholds,
      OF assms(1) ok this]
  obtain r where "segment_loop ?search distance_thresholds min_length offset_step approx data [] [] g =
      Some (Inr r)"
    by blast
  then show ?thesis
    by (cases r) (auto simp: segment_repeat_sequences_def)
qed

text \<open>
  C1: for every input series, the segments returned by \<open>segment_repeat_sequences\<close> are
  contiguous and exhaustive: concatenated in order they give back the input series, with
  the same length and the same values (and there is one label per segment). A list is
  returned whenever the steps and the length bounds are positive, the templates are
  well formed with one threshold per action group, and the permutation invents no length.
\<close>

theorem segment_reconstructs:
  "(segment_repeat_sequences permutation data templates_norm templates_info distance_thresholds
      (min_length, median_length, max_length) do_normalize warping_window length_step offset_step
      approx g = Some (Inr (data_segments, labels, g')) \<longrightarrow>
    concat data_segments = data \<and> length (concat data_segments) = length data \<and>
    length labels = length data_segments) \<and>
   (0 < offset_step \<and> 0 < length_step \<and> 1 \<le> min_length \<and> 1 \<le> max_length \<and>
    well_formed_templates templates_norm templates_info \<and>
    length distance_thresholds = length templates_norm \<and>
    (\<forall>g xs. set (fst (permutation g xs)) \<subseteq> set xs) \<longrightarrow>
    (\<exists>segs labs g1.
       segment_repeat_sequences permutation data templates_norm templates_info distance_thresholds
         (min_length, median_length, max_length) do_normalize warping_window length_step offset_step
         approx g = Some (Inr (segs, labs, g1))))"
proof (rule conjI; rule impI)
  assume run0: "segment_repeat_sequences permutation data templates_norm templates_info distance_thresholds
      (min_length, median_length, max_length) do_normalize warping_window length_step offset_step
      approx g = Some (Inr (data_segments, labels, g'))"
  from segment_repeat_sequences_loop [OF run0] obtain segs labs data_rem where
    run: "segment_loop
             (driver_search permutation templates_norm templates_info min_length max_length
                do_normalize warping_window length_step)
             distance_thresholds min_length offset_step approx data [] [] g =
             Some (Inr (segs, labs, data_rem, g'))"
    and segs: "data_segments = (if length data_rem > 0 then segs @ [data_rem] else segs)"
    and labs: "labels = (if length data_rem > 0 then labs @ [0] else labs)"
    by blast
  from segment_loop_concat_aux [OF run] have "concat segs @ data_rem = data" "length segs = length labs"
    by auto
  then have "concat data_segments = data \<and> length labels = length data_segments"
    using segs labs by auto
  then show "concat data_segments = data \<and> length (concat data_segments) = length data \<and>
    length labels = length data_segments" by simp
next
  assume pre: "0 < offset_step \<and> 0 < length_step \<and> 1 \<le> min_length \<and> 1 \<le> max_length \<and>
    well_formed_templates templates_norm templates_info \<and>
    length distance_thresholds = length templates_norm \<and>
    (\<forall>g xs. set (fst (permutation g xs)) \<subseteq> set xs)"
  then have perm: "set (fst (permutation g xs)) \<subseteq> set xs" for g xs by blast
  show "\<exists>segs labs g1.
       segment_repeat_sequences permutation data templates_norm templates_info distance_thresholds
         (min_length, median_length, max_length) do_normalize warping_window length_step offset_step
         approx g = Some (Inr (segs, labs, g1))"
    by (rule segment_repeat_sequences_returns [where permutation = permutation, OF _ _ _ _ _ _ perm])
      (use pre in simp_all)
qed

text \<open>
  C3 (as amended): every label emitted by \<open>segment_repeat_sequences\<close> is in \<open>{0, ..., K}\<close>,
  \<open>K\<close> the number of action groups, and a segment gets a label \<open>l\<close> other than 0 only
  when the search, started at the first point of the segment, returned the segment's
  length with label \<open>l\<close> and an average distance within the threshold of group \<open>l\<close>. The
  distance is compared with the threshold of the returned group alone.
\<close>

theorem segment_labels:
  assumes "segment_repeat_sequences permutation data templates_norm templates_info distance_thresholds
             (min_length, median_length, max_length) do_normalize warping_window length_step offset_step
             approx g = Some (Inr (data_segments, labels, g'))"
  shows "length labels = length data_segments \<and>
         (\<forall>(seg, l) \<in> set (zip data_segments labels).
            l \<le> length templates_norm \<and>
            (l \<noteq> 0 \<longrightarrow>
               accepted_span
                 (driver_search permutation templates_norm templates_info min_length max_length
                do_normalize warping_window length_step)
                 distance_thresholds data seg l))"
proof -
  let ?search = "driver_search permutation templates_norm templates_info min_length max_length
                do_normalize warping_window length_step"
  from segment_repeat_sequences_loop [OF assms] obtain segs labs data_rem where
    run: "segment_loop ?search distance_thresholds min_length offset_step approx data [] [] g =
             Some (Inr (segs, labs, data_rem, g'))"
    and segs: "data_segments = (if length data_rem > 0 then segs @ [data_rem] else segs)"
    and labs: "labels = (if length data_rem > 0 then labs @ [0] else labs)"
    by blast
  have len: "length segs = length labs" using segment_loop_concat_aux [OF run] by auto
  have "data = drop 0 data" by simp
  then have ex: "\<exists>n. data = drop n data" by blast
  have acc0: "\<forall>(seg, l) \<in> set (zip segs labs). l \<noteq> 0 \<longrightarrow> accepted_span ?search distance_thresholds data seg l"
    using segment_loop_labels_aux [OF run, where data = data] ex by simp
  have acc: "\<forall>(seg, l) \<in> set (zip data_segments labels). l \<noteq> 0 \<longrightarrow> accepted_span ?search distance_thresholds data seg l"
    using acc0 len segs labs by auto
  have bound: "l \<le> length templates_norm" if sp: "accepted_span ?search distance_thresholds data seg l" for seg l
  proof -
    obtain k g1 g2 m d where
      "search_subsequence permutation (drop k data) templates_norm templates_info min_length
         max_length do_normalize warping_window True length_step g1 = Inr ((m, d, l), g2)"
      using sp unfolding accepted_span_def driver_search_def by blast
    then show ?thesis by (rule search_subsequence_label_le)
  qed
  have "length labels = length data_segments" using len segs labs by auto
  moreover have "\<forall>(seg, l) \<in> set (zip data_segments labels).
            l \<le> length templates_norm \<and>
            (l \<noteq> 0 \<longrightarrow> accepted_span ?search distance_thresholds data seg l)"
    using acc bound by fastforce
  ultimately show ?thesis by blast
qed

text \<open>
  C7 (as amended): on an empty series \<open>segment_repeat_sequences\<close> does not fail, it returns
  no segment at all; on a series that is not empty and in which no candidate is acceptable
  at any offset it returns, with a positive offset step, a single segment with label 0
  that covers the entire series, and no error.
\<close>

theorem segment_unmatched:
  assumes "0 < offset_step"
    and "\<forall>g k. int (length data) - int k > int min_length \<longrightarrow>
          (\<exists>m d l g' t.
             search_subsequence permutation (drop k data) templates_norm templates_info min_length
               max_length do_normalize warping_window True length_step g = Inr ((m, d, l), g') \<and>
             py_index distance_thresholds (int l - 1) = Some t \<and> \<not> d \<le> t)"
  shows "segment_repeat_sequences permutation [] templates_norm templates_info distance_thresholds
           (min_length, median_length, max_length) do_normalize warping_window length_step offset_step
           approx g = Some (Inr ([], [], g)) \<and>
         (data \<noteq> [] \<longrightarrow>
           (\<exists>g'. segment_repeat_sequences permutation data templates_norm templates_info
                    distance_thresholds (min_length, median_length, max_length) do_normalize
                    warping_window length_step offset_step approx g = Some (Inr ([data], [0], g'))))"
proof -
  let ?search = "driver_search permutation templates_norm templates_info min_length max_length
                do_normalize warping_window length_step"
  have empty: "segment_repeat_sequences permutation [] templates_norm templates_info distance_thresholds
           (min_length, median_length, max_length) do_normalize warping_window length_step offset_step
           approx g = Some (Inr ([], [], g))"
    by (simp add: segment_repeat_sequences_def segment_loop.simps)
  have full: "\<exists>g'. segment_repeat_sequences permutation data templates_norm templates_info
                    distance_thresholds (min_length, median_length, max_length) do_normalize
                    warping_window length_step offset_step approx g = Some (Inr ([data], [0], g'))"
    if ne: "data \<noteq> []"
  proof (cases "length data > min_length")
    case False
    then have "segment_loop ?search distance_thresholds min_length offset_step approx data [] [] g =
        Some (Inr ([], [], data, g))"
      by (subst segment_loop.simps) simp
    then show ?thesis using ne by (simp add: segment_repeat_sequences_def)
  next
    case True
    have "\<exists>st'. scan ?search distance_thresholds min_length offset_step approx data
             \<lparr>offset = 0, info_best = \<lparr>cand_offset = 0, cand_length = 0, cand_distance = PInf, cand_label = 0\<rparr>,
              match = False, rng = g\<rparr> = Some (Inr st') \<and> \<not> match st'"
      using scan_no_match [where step = offset_step and data_rem = data and minl = min_length
          and search = ?search and th = distance_thresholds and approx = approx] assms
      by (simp add: driver_search_def)
    then obtain st' where
      sc: "scan ?search distance_thresholds min_length offset_step approx data
             \<lparr>offset = 0, info_best = \<lparr>cand_offset = 0, cand_length = 0, cand_distance = PInf, cand_label = 0\<rparr>,
              match = False, rng = g\<rparr> = Some (Inr st')"
      and nm: "\<not> match st'" by blast
    have "segment_loop ?search distance_thresholds min_length offset_step approx data [] [] g =
        Some (Inr ([data], [0], [], rng st'))"
      using True sc nm by (subst segment_loop.simps) simp
    then show ?thesis by (simp add: segment_repeat_sequences_def)
  qed
  show ?thesis using empty full by blast
qed

text \<open>
  C4: within one scan, once a best match is tracked, an acceptable candidate with the
  label of the tracked best replaces it exactly when its average distance is strictly
  lower, and an acceptable candidate with a different label ends the scan at once, the
  tracked best unchanged.
\<close>

theorem scan_tracked_best:
  assumes "match st"
    and "py_index distance_thresholds (int label - 1) = Some threshold"
    and "d_avg \<le> threshold"
  shows "(label = cand_label (info_best st) \<longrightarrow>
           (\<exists>out. scan_body distance_thresholds offset_step approx st (m, d_avg, label) = Inr out \<and>
              info_best (outcome_state out) =
                (if d_avg < cand_distance (info_best st)
                 then \<lparr>cand_offset = offset st, cand_length = m, cand_distance = d_avg, cand_label = label\<rparr>
                 else info_best st))) \<and>
         (label \<noteq> cand_label (info_best st) \<longrightarrow>
            scan_body distance_thresholds offset_step approx st (m, d_avg, label) = Inr (Break st) \<and>
            (int (length data_rem) - int (offset st) > int min_length \<longrightarrow>
             search (rng st) (drop (offset st) data_rem) = Inr ((m, d_avg, label), g') \<longrightarrow>
             scan search distance_thresholds min_length offset_step approx data_rem st =
               Some (Inr (st\<lparr>rng := g'\<rparr>))))"
proof (intro conjI impI)
  assume "label = cand_label (info_best st)"
  then show "\<exists>out. scan_body distance_thresholds offset_step approx st (m, d_avg, label) = Inr out \<and>
              info_best (outcome_state out) =
                (if d_avg < cand_distance (info_best st)
                 then \<lparr>cand_offset = offset st, cand_length = m, cand_distance = d_avg, cand_label = label\<rparr>
                 else info_best st)"
    using assms by (simp add: scan_body_def advance_offset_state)
next
  assume ne: "label \<noteq> cand_label (info_best st)"
  then show "scan_body distance_thresholds offset_step approx st (m, d_avg, label) = Inr (Break st)"
    using assms by (simp add: scan_body_def)
  have b: "scan_body distance_thresholds offset_step approx (st\<lparr>rng := g'\<rparr>) (m, d_avg, label) =
      Inr (Break (st\<lparr>rng := g'\<rparr>))"
    using assms ne by (simp add: scan_body_def)
  assume "int (length data_rem) - int (offset st) > int min_length"
    and "search (rng st) (drop (offset st) data_rem) = Inr ((m, d_avg, label), g')"
  then show "scan search distance_thresholds min_length offset_step approx data_rem st =
      Some (Inr (st\<lparr>rng := g'\<rparr>))"
    using b by (subst scan.simps) simp
qed


subsection \<open>Thresholds\<close>





subsection \<open>Concrete runs\<close>

lemmas kernel_defs = average_distance_to_templates_def min_over_groups_def group_average_def
  distance_term_def njit_dtw_def local_cost_def sq_dist_def sakoe_chiba_mask_def
  assign_slice_def assign_column_slice_def average_lb_distance_to_templates1_def lb1_term_def
  average_lb_distance_to_templates2_def lb2_term_def envelope_excess_def sum_sq_def column_def Let_def
  to_float64_small

lemmas search_defs = search_subsequence_def search_step_def normalized_prefix_def round_half_even_def
  arange_def no_shuffle_def

lemmas driver_defs = segment_repeat_sequences_def driver_search_def scan_body_def advance_offset_def py_index_def
  segment_loop.simps scan.simps

lemma sqrt_2_bounds: "4 < sqrt 2 * 3" "1 / 2 < sqrt 2 / 2" "2 / 3 < sqrt 2 / 2"
  "sqrt 2 \<le> 2000000" "sqrt 2 / 2 \<le> 1000000"
proof -
  have "(4 / 3)\<^sup>2 < (2::real)" by (simp add: power2_eq_square)
  then have "4 / 3 < sqrt 2" by (rule real_less_rsqrt)
  then show "4 < sqrt 2 * 3" by simp
  then show "2 / 3 < sqrt 2 / 2" by simp
  then show "1 / 2 < sqrt 2 / 2" by simp
  have "sqrt 2 \<le> 2" by (rule real_le_lsqrt) simp_all
  then show "sqrt 2 \<le> 2000000" by simp
  then show "sqrt 2 / 2 \<le> 1000000" by simp
qed

lemma run_flat:
  "segment_repeat_sequences no_shuffle [[0], [0], [0]] [[[[0], [0]]]]
     [[\<lparr>length_info = 2, min_info = [0], max_info = [0], first_value = [0], last_value = [0]\<rparr>]]
     [Fin 0] (1, 2, 2) False None 1 1 False () =
   Some (Inr ([[[0], [0]], [[0]]], [1, 0], ()))"
  by (simp add: driver_defs search_defs kernel_defs)


lemma search_ramp_1:
  "search_subsequence no_shuffle (drop 1 [[0], [0], [1]]) [[[[0], [1]]]]
     [[\<lparr>length_info = 2, min_info = [0], max_info = [1], first_value = [0], last_value = [1]\<rparr>]]
     1 2 False None True 1 () = Inr ((2, Fin 0, 1), ())"
  by (simp add: search_defs kernel_defs)

lemma run_ramp:
  "segment_repeat_sequences no_shuffle [[0], [0], [1]] [[[[0], [1]]]]
     [[\<lparr>length_info = 2, min_info = [0], max_info = [1], first_value = [0], last_value = [1]\<rparr>]]
     [Fin (1 / 4)] (1, 2, 2) False None 1 1 False () =
   Some (Inr ([[[0], [0]], [[1]]], [1, 0], ()))"
  by (simp add: driver_defs search_defs kernel_defs)

lemma search_two_groups:
  "search_subsequence no_shuffle [[0], [0], [0]] [[[[1], [0]]], [[[2], [0]]]]
     [[\<lparr>length_info = 2, min_info = [0], max_info = [1], first_value = [1], last_value = [0]\<rparr>],
      [\<lparr>length_info = 2, min_info = [0], max_info = [2], first_value = [2], last_value = [0]\<rparr>]]
     1 2 False None True 1 () = Inr ((2, Fin (1 / 4), 1), ())"
  by (simp add: search_defs kernel_defs)

lemma run_two_groups:
  "segment_repeat_sequences no_shuffle [[0], [0], [0]] [[[[1], [0]]], [[[2], [0]]]]
     [[\<lparr>length_info = 2, min_info = [0], max_info = [1], first_value = [1], last_value = [0]\<rparr>],
      [\<lparr>length_info = 2, min_info = [0], max_info = [2], first_value = [2], last_value = [0]\<rparr>]]
     [Fin (1 / 8), Fin 1] (1, 2, 2) False None 1 1 False () =
   Some (Inr ([[[0], [0], [0]]], [0], ()))"
  by (simp add: driver_defs search_defs kernel_defs)

lemma distance_second_group:
  "average_distance_to_templates [[0], [0]] [[[[2], [0]]]] None = Inr (Fin (1 / 2), 1)"
  by (simp add: kernel_defs)

lemma run_empty:
  "segment_repeat_sequences no_shuffle [] [[[[1], [0]]]]
     [[\<lparr>length_info = 2, min_info = [0], max_info = [1], first_value = [1], last_value = [0]\<rparr>]]
     [Fin (1 / 8)] (1, 2, 2) False None 1 1 False () = Some (Inr ([], [], ()))"
  by (simp add: driver_defs)

lemma bounds_one_point:
  "average_lb_distance_to_templates1 [[1]]
     [[\<lparr>length_info = 1, min_info = [0], max_info = [0], first_value = [0], last_value = [0]\<rparr>]] =
     Inr (Fin (sqrt 2 / 2))"
  "average_lb_distance_to_templates2 [[1]] [[[[0]]]]
     [[\<lparr>length_info = 1, min_info = [0], max_info = [0], first_value = [0], last_value = [0]\<rparr>]] =
     Inr (Fin (sqrt 2 / 2))"
  "average_distance_to_templates [[1]] [[[[0]]]] None = Inr (Fin (1 / 2), 1)"
  by (simp_all add: kernel_defs sqrt_2_bounds)

lemma search_pruned:
  "search_subsequence no_shuffle [[1, 0, 0], [1, 1, 1]] [[[[0, 0, 0]]]]
     [[\<lparr>length_info = 1, min_info = [0, 0, 0], max_info = [0, 0, 0], first_value = [0, 0, 0],
        last_value = [0, 0, 0]\<rparr>]]
     1 2 False None True 1 () = Inr ((2, Fin (2 / 3), 1), ())"
  by (simp add: search_defs kernel_defs sqrt_2_bounds)

lemma search_unpruned:
  "search_subsequence no_shuffle [[1, 0, 0], [1, 1, 1]] [[[[0, 0, 0]]]]
     [[\<lparr>length_info = 1, min_info = [0, 0, 0], max_info = [0, 0, 0], first_value = [0, 0, 0],
        last_value = [0, 0, 0]\<rparr>]]
     1 2 False None False 1 () = Inr ((1, Fin (1 / 2), 1), ())"
  by (simp add: search_defs kernel_defs)

lemma search_one_group_0:
  "search_subsequence no_shuffle [[0], [0], [0]] [[[[1], [0]]]]
     [[\<lparr>length_info = 2, min_info = [0], max_info = [1], first_value = [1], last_value = [0]\<rparr>]]
     1 2 False None True 1 g = Inr ((2, Fin (1 / 4), 1), ())"
  by (simp add: search_defs kernel_defs)

lemma search_one_group_1:
  "search_subsequence no_shuffle [[0], [0]] [[[[1], [0]]]]
     [[\<lparr>length_info = 2, min_info = [0], max_info = [1], first_value = [1], last_value = [0]\<rparr>]]
     1 2 False None True 1 g = Inr ((2, Fin (1 / 4), 1), ())"
  by (simp add: search_defs kernel_defs)

lemma search_one_group:
  assumes "int (length [[0], [0], [0::real]]) - int k > int 1"
  shows "search_subsequence no_shuffle (drop k [[0], [0], [0]]) [[[[1], [0]]]]
     [[\<lparr>length_info = 2, min_info = [0], max_info = [1], first_value = [1], last_value = [0]\<rparr>]]
     1 2 False None True 1 g = Inr ((2, Fin (1 / 4), 1), ())"
proof -
  have "k = 0 \<or> k = 1" using assms by auto
  then show ?thesis
  proof
    assume "k = 0"
    then show ?thesis using search_one_group_0 [of g] by simp
  next
    assume "k = 1"
    then show ?thesis using search_one_group_1 [of g] by simp
  qed
qed





subsection \<open>Witnesses and concrete evaluations\<close>

theorem segment_reconstructs_witness:
  "segment_repeat_sequences no_shuffle [[0], [0], [0]] [[[[0], [0]]]]
     [[\<lparr>length_info = 2, min_info = [0], max_info = [0], first_value = [0], last_value = [0]\<rparr>]]
     [Fin 0] (1, 2, 2) False None 1 1 False () =
     Some (Inr ([[[0], [0]], [[0]]], [1, 0], ())) \<and>
   concat [[[0], [0]], [[0]]] = [[0], [0], [0::real]] \<and>
   length [1, 0::nat] = length [[[0], [0]], [[0::real]]]"
  using segment_reconstructs [where permutation = no_shuffle and data = "[[0], [0], [0]]"
      and templates_norm = "[[[[0], [0]]]]"
      and templates_info = "[[\<lparr>length_info = 2, min_info = [0], max_info = [0], first_value = [0],
            last_value = [0]\<rparr>]]"
      and distance_thresholds = "[Fin 0]" and min_length = 1 and median_length = 2
      and max_length = 2 and do_normalize = False and warping_window = None and length_step = 1
      and offset_step = 1 and approx = False and g = "()"
      and data_segments = "[[[0], [0]], [[0]]]" and labels = "[1, 0]" and g' = "()"]
    run_flat by simp

theorem segment_labels_witness:
  "segment_repeat_sequences no_shuffle [[0], [0], [1]] [[[[0], [1]]]]
     [[\<lparr>length_info = 2, min_info = [0], max_info = [1], first_value = [0], last_value = [1]\<rparr>]]
     [Fin (1 / 4)] (1, 2, 2) False None 1 1 False () =
     Some (Inr ([[[0], [0]], [[1]]], [1, 0], ())) \<and>
   accepted_span
     (driver_search no_shuffle [[[[0], [1]]]]
        [[\<lparr>length_info = 2, min_info = [0], max_info = [1], first_value = [0], last_value = [1]\<rparr>]]
        1 2 False None 1)
     [Fin (1 / 4)] [[0], [0], [1]] [[0], [0]] 1"
  using segment_labels [OF run_ramp] run_ramp by simp

theorem segment_label_zero_counterexample:
  "segment_repeat_sequences no_shuffle [[0], [0], [0]] [[[[1], [0]]], [[[2], [0]]]]
     [[\<lparr>length_info = 2, min_info = [0], max_info = [1], first_value = [1], last_value = [0]\<rparr>],
      [\<lparr>length_info = 2, min_info = [0], max_info = [2], first_value = [2], last_value = [0]\<rparr>]]
     [Fin (1 / 8), Fin 1] (1, 2, 2) False None 1 1 False () =
     Some (Inr ([[[0], [0], [0]]], [0], ())) \<and>
   search_subsequence no_shuffle [[0], [0], [0]] [[[[1], [0]]], [[[2], [0]]]]
     [[\<lparr>length_info = 2, min_info = [0], max_info = [1], first_value = [1], last_value = [0]\<rparr>],
      [\<lparr>length_info = 2, min_info = [0], max_info = [2], first_value = [2], last_value = [0]\<rparr>]]
     1 2 False None True 1 () = Inr ((2, Fin (1 / 4), 1), ()) \<and>
   Fin (1 / 4) \<le> [Fin (1 / 8), Fin 1] ! 1 \<and>
   average_distance_to_templates [[0], [0]] [[[[2], [0]]]] None = Inr (Fin (1 / 2), 1) \<and>
   Fin (1 / 2) \<le> [Fin (1 / 8), Fin 1] ! 1"
  using run_two_groups search_two_groups distance_second_group by simp

theorem segment_empty_counterexample:
  "segment_repeat_sequences no_shuffle [] [[[[1], [0]]]]
     [[\<lparr>length_info = 2, min_info = [0], max_info = [1], first_value = [1], last_value = [0]\<rparr>]]
     [Fin (1 / 8)] (1, 2, 2) False None 1 1 False () = Some (Inr ([], [], ()))"
  by (rule run_empty)

theorem segment_unmatched_witness:
  "segment_repeat_sequences no_shuffle [[0], [0], [0]] [[[[1], [0]]]]
     [[\<lparr>length_info = 2, min_info = [0], max_info = [1], first_value = [1], last_value = [0]\<rparr>]]
     [Fin (1 / 8)] (1, 2, 2) False None 1 1 False () = Some (Inr ([[[0], [0], [0]]], [0], ()))"
proof -
  have rej: "\<forall>g k. int (length [[0], [0], [0::real]]) - int k > int 1 \<longrightarrow>
          (\<exists>m d l g' t.
             search_subsequence no_shuffle (drop k [[0], [0], [0]]) [[[[1], [0]]]]
               [[\<lparr>length_info = 2, min_info = [0], max_info = [1], first_value = [1], last_value = [0]\<rparr>]]
               1 2 False None True 1 g = Inr ((m, d, l), g') \<and>
             py_index [Fin (1 / 8)] (int l - 1) = Some t \<and> \<not> d \<le> t)"
  proof (intro allI impI)
    fix g :: unit and k :: nat
    assume "int (length [[0], [0], [0::real]]) - int k > int 1"
    from search_one_group [OF this, of g]
    show "\<exists>m d l g' t.
             search_subsequence no_shuffle (drop k [[0], [0], [0]]) [[[[1], [0]]]]
               [[\<lparr>length_info = 2, min_info = [0], max_info = [1], first_value = [1], last_value = [0]\<rparr>]]
               1 2 False None True 1 g = Inr ((m, d, l), g') \<and>
             py_index [Fin (1 / 8)] (int l - 1) = Some t \<and> \<not> d \<le> t"
      by (intro exI [of _ 2] exI [of _ "Fin (1 / 4)"] exI [of _ 1] exI [of _ "()"] exI [of _ "Fin (1 / 8)"])
         (simp add: py_index_def)
  qed
  have "0 < (1::nat)" by simp
  from segment_unmatched [OF this rej, where median_length = 2 and approx = False
      and g = "()"]
  show ?thesis by simp
qed

theorem scan_tracked_best_witness:
  "scan_body [Fin 1, Fin 1] 1 False
     \<lparr>offset = 1, info_best = \<lparr>cand_offset = 0, cand_length = 3, cand_distance = Fin (1 / 2), cand_label = 1\<rparr>,
      match = True, rng = ()\<rparr> (2, Fin (1 / 4), 2) =
     Inr (Break \<lparr>offset = 1, info_best = \<lparr>cand_offset = 0, cand_length = 3, cand_distance = Fin (1 / 2), cand_label = 1\<rparr>,
                 match = True, rng = ()\<rparr>) \<and>
   (\<exists>out. scan_body [Fin 1, Fin 1] 1 False
     \<lparr>offset = 1, info_best = \<lparr>cand_offset = 0, cand_length = 3, cand_distance = Fin (1 / 2), cand_label = 1\<rparr>,
      match = True, rng = ()\<rparr> (2, Fin (1 / 4), 1) = Inr out \<and>
      info_best (outcome_state out) =
        \<lparr>cand_offset = 1, cand_length = 2, cand_distance = Fin (1 / 4), cand_label = 1\<rparr>)"
proof -
  let ?st = "\<lparr>offset = 1, info_best = \<lparr>cand_offset = 0, cand_length = 3, cand_distance = Fin (1 / 2), cand_label = 1\<rparr>,
      match = True, rng = ()\<rparr>"
  have m: "match ?st" by simp
  have i2: "py_index [Fin 1, Fin 1] (int 2 - 1) = Some (Fin 1)" by (simp add: py_index_def)
  have i1: "py_index [Fin 1, Fin 1] (int 1 - 1) = Some (Fin 1)" by (simp add: py_index_def)
  have le: "Fin (1 / 4) \<le> Fin 1" by simp
  from scan_tracked_best [OF m i2 le, of 1 False 2] scan_tracked_best [OF m i1 le, of 1 False 2]
  show ?thesis by simp
qed




text \<open>
  C2: the claim is that the group minimum of Bound 1 and of Bound 2 never exceeds the true
  minimum average warped distance. The code breaks it when the candidate and a template
  both have a single point: the first and the last point are then the same point, its
  squared deviation is added twice, and both bounds are \<open>sqrt 2 / 2\<close> against a true
  average distance of \<open>1 / 2\<close>. The search then skips a length that would have improved
  its result: with the bounds it returns length 2 at distance \<open>2 / 3\<close>, without them
  length 1 at distance \<open>1 / 2\<close>.
\<close>

theorem lower_bounds_exceed_distance:
  "average_lb_distance_to_templates1 [[1]]
     [[\<lparr>length_info = 1, min_info = [0], max_info = [0], first_value = [0], last_value = [0]\<rparr>]] =
     Inr (Fin (sqrt 2 / 2)) \<and>
   average_lb_distance_to_templates2 [[1]] [[[[0]]]]
     [[\<lparr>length_info = 1, min_info = [0], max_info = [0], first_value = [0], last_value = [0]\<rparr>]] =
     Inr (Fin (sqrt 2 / 2)) \<and>
   average_distance_to_templates [[1]] [[[[0]]]] None = Inr (Fin (1 / 2), 1) \<and>
   Fin (1 / 2) < Fin (sqrt 2 / 2) \<and>
   search_subsequence no_shuffle [[1, 0, 0], [1, 1, 1]] [[[[0, 0, 0]]]]
     [[\<lparr>length_info = 1, min_info = [0, 0, 0], max_info = [0, 0, 0], first_value = [0, 0, 0],
        last_value = [0, 0, 0]\<rparr>]]
     1 2 False None True 1 () = Inr ((2, Fin (2 / 3), 1), ()) \<and>
   search_subsequence no_shuffle [[1, 0, 0], [1, 1, 1]] [[[[0, 0, 0]]]]
     [[\<lparr>length_info = 1, min_info = [0, 0, 0], max_info = [0, 0, 0], first_value = [0, 0, 0],
        last_value = [0, 0, 0]\<rparr>]]
     1 2 False None False 1 () = Inr ((1, Fin (1 / 2), 1), ())"
  using bounds_one_point search_pruned search_unpruned sqrt_2_bounds by simp

text \<open>
  C8: the claim is that a scan with a tracked match stops early exactly when the offset is
  more than 10 past the offset of the tracked best, or the advance exceeds its matched
  length minus 1. The code stops already when the advance equals the matched length
  minus 1: here the best is tracked at offset 0 with length 2, the offset becomes 1 (the
  last index of the tracked span, not past it) and the scan ends, so that the candidate at
  offset 1, of the same label and of distance 0, is never looked at.
\<close>

theorem scan_stops_at_last_index:
  "segment_repeat_sequences no_shuffle [[0], [0], [1]] [[[[0], [1]]]]
     [[\<lparr>length_info = 2, min_info = [0], max_info = [1], first_value = [0], last_value = [1]\<rparr>]]
     [Fin (1 / 4)] (1, 2, 2) False None 1 1 False () =
     Some (Inr ([[[0], [0]], [[1]]], [1, 0], ())) \<and>
   scan_body [Fin (1 / 4)] 1 False
     \<lparr>offset = 0, info_best = \<lparr>cand_offset = 0, cand_length = 0, cand_distance = PInf, cand_label = 0\<rparr>,
      match = False, rng = ()\<rparr> (2, Fin (1 / 4), 1) =
     Inr (Break \<lparr>offset = 1,
                 info_best = \<lparr>cand_offset = 0, cand_length = 2, cand_distance = Fin (1 / 4), cand_label = 1\<rparr>,
                 match = True, rng = ()\<rparr>) \<and>
   search_subsequence no_shuffle (drop 1 [[0], [0], [1]]) [[[[0], [1]]]]
     [[\<lparr>length_info = 2, min_info = [0], max_info = [1], first_value = [0], last_value = [1]\<rparr>]]
     1 2 False None True 1 () = Inr ((2, Fin 0, 1), ())"
  using run_ramp search_ramp_1 by (simp add: scan_body_def advance_offset_def py_index_def)

end
